theory Spec2Isabelle
  imports Complex_Main
begin

section \<open>Data model\<close>

text \<open>
  The notebook works on numpy arrays. An array of item sizes (\<open>box_widths\<close>) is a list
  of numbers; a bin is a membership vector with one entry per item (\<open>1\<close> when the item
  is in the bin), and a packing is the sequence of its bins.

  Item sizes are 64-bit floating-point numbers in the notebook. Here a size is a real
  number, and the two places where the notebook computes with sizes are parameters of
  the model: the subtraction that keeps \<open>available_space\<close> up to date in the packers,
  and the summation \<open>np.sum\<close> of the validator. Two instances are given below: exact
  arithmetic, and arithmetic rounded to the nearest 64-bit floating-point number.
  Comparisons of floating-point numbers are exact, so they are the comparisons of the
  reals.

  The validator is the one function with a claim about sizes that are not in \<open>[0, 1]\<close>,
  so its sizes are of the type \<open>width\<close>: a number, or the floating-point value NaN, for
  which every comparison is false. Infinite sizes are not modelled.
\<close>

type_synonym bin = "int list"

datatype width = Number real | NaN

fun exceeds_one :: "width \<Rightarrow> bool" where
  \<comment> \<open>\<open>w > 1\<close>\<close>
  "exceeds_one (Number r) = (r > 1)"
| "exceeds_one NaN = False"

fun below_zero :: "width \<Rightarrow> bool" where
  \<comment> \<open>\<open>w < 0\<close>\<close>
  "below_zero (Number r) = (r < 0)"
| "below_zero NaN = False"

fun in_unit_interval :: "width \<Rightarrow> bool" where
  \<comment> \<open>a number in \<open>[0, 1]\<close>\<close>
  "in_unit_interval (Number r) = (0 \<le> r \<and> r \<le> 1)"
| "in_unit_interval NaN = False"

type_synonym subtraction = "real \<Rightarrow> real \<Rightarrow> real"

type_synonym summation = "width list \<Rightarrow> width"

datatype error = ValueError | IndexError

definition zeros :: "nat \<Rightarrow> int list" where
  \<comment> \<open>\<open>np.zeros(n)\<close>\<close>
  "zeros n = replicate n 0"

section \<open>The packing validator\<close>

definition masked :: "'a list \<Rightarrow> bin \<Rightarrow> 'a list" where
  \<comment> \<open>the entries of an array at the positions where \<open>b\<close> is 1\<close>
  "masked a b = map fst (filter (\<lambda>p. snd p = 1) (zip a b))"

text \<open>
  \<open>box_widths[b == 1]\<close>: numpy raises \<open>IndexError\<close> when the length of the mask is not
  that of the array, unless the mask has length 0, which selects nothing from an array
  of any length.
\<close>

definition boolean_index :: "'a list \<Rightarrow> bin \<Rightarrow> error + 'a list" where
  "boolean_index a b =
     (if length b = length a \<or> b = [] then Inr (masked a b) else Inl IndexError)"

text \<open>
  \<open>x += b\<close>: elementwise for arrays of one length; an array \<open>b\<close> of length 1 is
  broadcast over \<open>x\<close>; for any other two lengths numpy raises \<open>ValueError\<close>.
\<close>

definition add_in_place :: "int list \<Rightarrow> bin \<Rightarrow> error + int list" where
  "add_in_place x b =
     (if length b = length x then Inr (map2 (+) x b)
      else if length b = 1 then Inr (map (\<lambda>v. v + b ! 0) x)
      else Inl ValueError)"

text \<open>
  The loop \<open>for b in bins\<close> of \<open>is_valid_packing\<close>, with the running total \<open>x\<close>, which
  has the shape of the first bin.
\<close>

fun check_bins :: "summation \<Rightarrow> width list \<Rightarrow> bin list \<Rightarrow> int list \<Rightarrow> error + bool" where
  "check_bins np_sum box_widths [] x = Inr (\<not> list_ex (\<lambda>v. v \<noteq> 1) x)"
| "check_bins np_sum box_widths (b # bins) x =
     (case boolean_index box_widths b of
        Inl e \<Rightarrow> Inl e
      | Inr in_bin \<Rightarrow>
          if exceeds_one (np_sum in_bin) then Inr False
          else (case add_in_place x b of
                  Inl e \<Rightarrow> Inl e
                | Inr x' \<Rightarrow> check_bins np_sum box_widths bins x'))"

definition is_valid_packing :: "summation \<Rightarrow> width list \<Rightarrow> bin list \<Rightarrow> error + bool" where
  "is_valid_packing np_sum box_widths bins =
     (if list_ex exceeds_one box_widths \<or> list_ex below_zero box_widths
      then Inl ValueError
      else case bins of
             [] \<Rightarrow> Inl IndexError
           | b0 # _ \<Rightarrow> check_bins np_sum box_widths bins (zeros (length b0)))"

section \<open>NEXT-FIT\<close>

text \<open>
  The variables of the loop: \<open>bins\<close>, \<open>current_bin\<close> and \<open>available_space\<close>.
\<close>

record next_fit_state =
  nf_bins :: "bin list"
  nf_current_bin :: bin
  nf_available_space :: real

definition next_fit_step :: "subtraction \<Rightarrow> real list \<Rightarrow> nat \<Rightarrow> next_fit_state \<Rightarrow> next_fit_state" where
  \<comment> \<open>the body of the loop \<open>for i in range(num_boxes)\<close>\<close>
  "next_fit_step sub box_widths i s =
     (let box_width = box_widths ! i;
          s1 = (if box_width > nf_available_space s
                then \<lparr>nf_bins = nf_bins s @ [nf_current_bin s],
                      nf_current_bin = zeros (length box_widths),
                      nf_available_space = 1\<rparr>
                else s)
      in \<lparr>nf_bins = nf_bins s1,
          nf_current_bin = (nf_current_bin s1)[i := 1],
          nf_available_space = sub (nf_available_space s1) box_width\<rparr>)"

definition next_fit_init :: "real list \<Rightarrow> next_fit_state" where
  "next_fit_init box_widths =
     \<lparr>nf_bins = [], nf_current_bin = zeros (length box_widths), nf_available_space = 1\<rparr>"

definition next_fit :: "subtraction \<Rightarrow> real list \<Rightarrow> bin list" where
  "next_fit sub box_widths =
     (let s = fold (next_fit_step sub box_widths) [0..<length box_widths]
                (next_fit_init box_widths)
      in nf_bins s @ [nf_current_bin s])"

text \<open>
  The state of \<open>next_fit\<close> when its loop has gone through the items \<open>0, \<dots>, k - 1\<close>;
  \<open>next_fit\<close> returns the bins of the state at \<open>k = n\<close>.
\<close>

definition next_fit_loop :: "subtraction \<Rightarrow> real list \<Rightarrow> nat \<Rightarrow> next_fit_state" where
  "next_fit_loop sub box_widths k =
     fold (next_fit_step sub box_widths) [0..<k] (next_fit_init box_widths)"

section \<open>FIRST-FIT\<close>

text \<open>
  The variables of the loop: the lists \<open>bins\<close> and \<open>available_space\<close>.
\<close>

record first_fit_state =
  ff_bins :: "bin list"
  ff_available_space :: "real list"

text \<open>
  The loop \<open>while not is_box_placed and j < len(bins)\<close>: the index of the first bin with
  \<open>box_width < available_space[j]\<close>, searched from \<open>j\<close> on, or \<open>None\<close> when the loop ends
  with \<open>is_box_placed\<close> still false. \<open>num_bins\<close> is \<open>len(bins)\<close>.
\<close>

function scan :: "real \<Rightarrow> real list \<Rightarrow> nat \<Rightarrow> nat \<Rightarrow> nat option" where
  "scan box_width space num_bins j =
     (if j < num_bins
      then (if box_width < space ! j then Some j
            else scan box_width space num_bins (j + 1))
      else None)"
  by pat_completeness auto
termination
  by (relation "measure (\<lambda>(box_width, space, num_bins, j). num_bins - j)") auto

declare scan.simps [simp del]

definition first_fit_step :: "subtraction \<Rightarrow> real list \<Rightarrow> nat \<Rightarrow> first_fit_state \<Rightarrow> first_fit_state" where
  \<comment> \<open>the body of the loop \<open>for i in range(box_widths.size)\<close>\<close>
  "first_fit_step sub box_widths i s =
     (let box_width = box_widths ! i
      in case scan box_width (ff_available_space s) (length (ff_bins s)) 0 of
           Some j \<Rightarrow>
             \<lparr>ff_bins = (ff_bins s)[j := (ff_bins s ! j)[i := 1]],
              ff_available_space =
                (ff_available_space s)[j := sub (ff_available_space s ! j) box_width]\<rparr>
         | None \<Rightarrow>
             \<lparr>ff_bins = ff_bins s @ [(zeros (length box_widths))[i := 1]],
              ff_available_space = ff_available_space s @ [sub 1 box_width]\<rparr>)"

definition first_fit_init :: "real list \<Rightarrow> first_fit_state" where
  \<comment> \<open>start with one empty bin\<close>
  "first_fit_init box_widths =
     \<lparr>ff_bins = [zeros (length box_widths)], ff_available_space = [1]\<rparr>"

definition first_fit :: "subtraction \<Rightarrow> real list \<Rightarrow> bin list" where
  "first_fit sub box_widths =
     ff_bins (fold (first_fit_step sub box_widths) [0..<length box_widths]
                  (first_fit_init box_widths))"

text \<open>
  The state of \<open>first_fit\<close> when its outer loop has gone through the items
  \<open>0, \<dots>, k - 1\<close>; \<open>first_fit\<close> returns the bins of the state at \<open>k = n\<close>.
\<close>

definition first_fit_loop :: "subtraction \<Rightarrow> real list \<Rightarrow> nat \<Rightarrow> first_fit_state" where
  "first_fit_loop sub box_widths k =
     fold (first_fit_step sub box_widths) [0..<k] (first_fit_init box_widths)"

section \<open>FIRST-FIT-DECREASING\<close>

text \<open>
  \<open>np.argsort\<close> returns a permutation of the indices that puts the keys in increasing
  order. Its default sorting algorithm is not stable, so the order it gives to equal
  keys is not fixed: \<open>is_argsort\<close> describes every result it can return, and \<open>argsort\<close>
  is the stable one.
\<close>

definition is_permutation :: "nat \<Rightarrow> nat list \<Rightarrow> bool" where
  "is_permutation n indices = (distinct indices \<and> set indices = {0..<n})"

definition is_argsort :: "real list \<Rightarrow> nat list \<Rightarrow> bool" where
  "is_argsort keys indices =
     (is_permutation (length keys) indices \<and> sorted (map (\<lambda>i. keys ! i) indices))"

definition argsort :: "real list \<Rightarrow> nat list" where
  "argsort keys = sort_key (\<lambda>i. keys ! i) [0..<length keys]"

definition take_indices :: "'a list \<Rightarrow> nat list \<Rightarrow> 'a list" where
  \<comment> \<open>\<open>a[indices]\<close>, for indices in range\<close>
  "take_indices a indices = map (\<lambda>i. a ! i) indices"

definition undo_sort_of :: "nat list \<Rightarrow> nat list" where
  \<comment> \<open>\<open>undo_sort = np.empty_like(indices); undo_sort[indices] = np.arange(n)\<close>:
      the entries of the fresh array are written one by one, each exactly once when
      \<open>indices\<close> is a permutation\<close>
  "undo_sort_of indices =
     fold (\<lambda>k undo_sort. undo_sort[indices ! k := k]) [0..<length indices]
       (replicate (length indices) 0)"

definition first_fit_decreasing_with :: "subtraction \<Rightarrow> nat list \<Rightarrow> real list \<Rightarrow> bin list" where
  \<comment> \<open>\<open>first_fit_decreasing\<close> after \<open>indices = np.argsort(-box_widths)\<close>\<close>
  "first_fit_decreasing_with sub indices box_widths =
     (let bins = first_fit sub (take_indices box_widths indices);
          undo_sort = undo_sort_of indices
      in map (\<lambda>b. take_indices b undo_sort) bins)"

definition first_fit_decreasing :: "subtraction \<Rightarrow> real list \<Rightarrow> bin list" where
  "first_fit_decreasing sub box_widths =
     first_fit_decreasing_with sub (argsort (map uminus box_widths)) box_widths"

section \<open>Arithmetic on sizes\<close>

definition exact_sub :: subtraction where
  "exact_sub a b = a - b"

text \<open>
  Rounding to the nearest 64-bit floating-point number, ties to the even significand.
  \<open>nearest_even\<close> rounds to an integer, which is right for a magnitude from \<open>2 ^ 52\<close>
  up to \<open>2 ^ 53\<close>, where the floating-point numbers are the integers. A smaller
  magnitude is doubled until it gets there (\<open>round_scaled\<close>), at most 1074 times: then
  the spacing is that of the subnormal numbers. A larger one is halved until it gets
  there (\<open>round_halved\<close>). Overflow to infinity, from \<open>2 ^ 1024\<close> on, is not modelled.
\<close>

definition nearest_even :: "real \<Rightarrow> int" where
  "nearest_even x =
     (let f = \<lfloor>x\<rfloor>; r = x - of_int f
      in if r < 1 / 2 then f
         else if r > 1 / 2 then f + 1
         else if even f then f else f + 1)"

fun round_scaled :: "nat \<Rightarrow> real \<Rightarrow> real" where
  "round_scaled 0 x = of_int (nearest_even x)"
| "round_scaled (Suc k) x =
     (if x < 2 ^ 52 then round_scaled k (2 * x) / 2 else of_int (nearest_even x))"

fun round_halved :: "nat \<Rightarrow> real \<Rightarrow> real" where
  "round_halved 0 x = of_int (nearest_even x)"
| "round_halved (Suc k) x =
     (if 2 ^ 53 \<le> x then 2 * round_halved k (x / 2) else of_int (nearest_even x))"

definition round_magnitude :: "real \<Rightarrow> real" where
  "round_magnitude x = (if x < 2 ^ 52 then round_scaled 1074 x else round_halved 971 x)"

definition binary64 :: "real \<Rightarrow> real" where
  "binary64 x = (if x < 0 then - round_magnitude (- x) else round_magnitude x)"

definition binary64_sub :: subtraction where
  "binary64_sub a b = binary64 (a - b)"

text \<open>
  A sum is NaN when a summand is. \<open>np.sum\<close> adds fewer than eight numbers from left to
  right, starting from zero, and \<open>binary64_sum\<close> is that sum. Longer arrays are added in
  blocks, in another order, which is not modelled: \<open>binary64_sum\<close> is used on at most
  seven numbers.
\<close>

fun the_number :: "width \<Rightarrow> real" where
  "the_number (Number r) = r"
| "the_number NaN = 0"

definition sum_with :: "(real list \<Rightarrow> real) \<Rightarrow> summation" where
  "sum_with f ws =
     (if list_ex (\<lambda>w. w = NaN) ws then NaN else Number (f (map the_number ws)))"

definition exact_sum :: summation where
  "exact_sum = sum_with sum_list"

definition binary64_sum :: summation where
  "binary64_sum = sum_with (foldl (\<lambda>a x. binary64 (a + x)) 0)"

section \<open>Reading a packing\<close>

definition bin_contents :: "real list \<Rightarrow> bin \<Rightarrow> real list" where
  \<comment> \<open>\<open>items[b == 1]\<close> of \<open>print_bins\<close>\<close>
  "bin_contents items b = masked items b"

text \<open>The bins of \<open>next_fit\<close> so far: the closed ones and the current one.\<close>

definition all_bins :: "next_fit_state \<Rightarrow> bin list" where
  "all_bins s = nf_bins s @ [nf_current_bin s]"

text \<open>The sizes of the notebook's example, \<open>items\<close>.\<close>

definition items :: "real list" where
  "items = [9 / 100, 69 / 100, 79 / 100, 29 / 100, 89 / 100, 19 / 100]"

section \<open>Packings\<close>

text \<open>
  A membership vector over \<open>n\<close> items has \<open>n\<close> entries, each 0 or 1. The elementwise sum
  of the vectors of a packing counts, item by item, the bins that hold the item.
\<close>

definition is_membership_vector :: "nat \<Rightarrow> bin \<Rightarrow> bool" where
  "is_membership_vector n b = (length b = n \<and> list_all (\<lambda>v. v = 0 \<or> v = 1) b)"



text \<open>
  The bins hold each of the first \<open>k\<close> of \<open>n\<close> items exactly once, and no later item.
\<close>

definition packed_upto :: "nat \<Rightarrow> nat \<Rightarrow> bin list \<Rightarrow> bool" where
  "packed_upto n k bs =
     ((\<forall>b \<in> set bs. is_membership_vector n b) \<and>
      (\<forall>i < n. sum_list (map (\<lambda>b. b ! i) bs) = (if i < k then 1 else 0)))"

text \<open>
  What the loops of \<open>next_fit\<close> and \<open>first_fit\<close> keep true in exact arithmetic, before
  item \<open>k\<close>: the space on record for a bin is what its items leave of the capacity 1,
  and no bin holds more than 1.
\<close>

definition next_fit_inv :: "real list \<Rightarrow> nat \<Rightarrow> next_fit_state \<Rightarrow> bool" where
  "next_fit_inv box_widths k s =
     (packed_upto (length box_widths) k (all_bins s) \<and>
      (\<forall>b \<in> set (nf_bins s). sum_list (masked box_widths b) \<le> 1) \<and>
      nf_available_space s = 1 - sum_list (masked box_widths (nf_current_bin s)) \<and>
      sum_list (masked box_widths (nf_current_bin s)) \<le> 1)"

definition first_fit_inv :: "real list \<Rightarrow> nat \<Rightarrow> first_fit_state \<Rightarrow> bool" where
  "first_fit_inv box_widths k s =
     (packed_upto (length box_widths) k (ff_bins s) \<and>
      length (ff_available_space s) = length (ff_bins s) \<and>
      (\<forall>j < length (ff_bins s).
         ff_available_space s ! j = 1 - sum_list (masked box_widths (ff_bins s ! j)) \<and>
         sum_list (masked box_widths (ff_bins s ! j)) \<le> 1))"

text \<open>
  Seven sizes strictly between 0 and 1, each a 64-bit floating-point number: six times
  \<open>2 ^ -54\<close>, then \<open>1 - 2 ^ -53\<close>, the largest such number below 1.
\<close>

definition rounding_items :: "real list" where
  "rounding_items =
     [1 / 2 ^ 54, 1 / 2 ^ 54, 1 / 2 ^ 54, 1 / 2 ^ 54, 1 / 2 ^ 54, 1 / 2 ^ 54, 1 - 1 / 2 ^ 53]"


section \<open>The inner loop of FIRST-FIT\<close>

lemma scan_None:
  "scan box_width space num_bins j = None \<longleftrightarrow>
     (\<forall>k. j \<le> k \<and> k < num_bins \<longrightarrow> \<not> box_width < space ! k)"
proof (induction box_width space num_bins j rule: scan.induct)
  case (1 box_width space num_bins j)
  show ?case
  proof (cases "j < num_bins")
    case False
    then show ?thesis by (simp add: scan.simps)
  next
    case True
    show ?thesis
    proof (cases "box_width < space ! j")
      case True
      with \<open>j < num_bins\<close> show ?thesis
        by (auto simp: scan.simps [of box_width space num_bins j])
    next
      case False
      have "(\<forall>k. j \<le> k \<and> k < num_bins \<longrightarrow> \<not> box_width < space ! k) \<longleftrightarrow>
            (\<forall>k. j + 1 \<le> k \<and> k < num_bins \<longrightarrow> \<not> box_width < space ! k)"
        using False
        by (metis Suc_eq_plus1 Suc_leI le_neq_implies_less nat_le_linear not_less_eq_eq)
      with 1 True False show ?thesis
        by (simp add: scan.simps [of box_width space num_bins j])
    qed
  qed
qed

lemma scan_Some:
  "scan box_width space num_bins j = Some k \<longleftrightarrow>
     (j \<le> k \<and> k < num_bins \<and> box_width < space ! k \<and>
      (\<forall>k'. j \<le> k' \<and> k' < k \<longrightarrow> \<not> box_width < space ! k'))"
proof (induction box_width space num_bins j rule: scan.induct)
  case (1 box_width space num_bins j)
  show ?case
  proof (cases "j < num_bins")
    case False
    then show ?thesis by (auto simp: scan.simps [of box_width space num_bins j])
  next
    case True
    show ?thesis
    proof (cases "box_width < space ! j")
      case True
      with \<open>j < num_bins\<close> show ?thesis
        by (auto simp: scan.simps [of box_width space num_bins j])
    next
      case False
      have "scan box_width space num_bins j = scan box_width space num_bins (j + 1)"
        using True False by (simp add: scan.simps [of box_width space num_bins j])
      also have "\<dots> = Some k \<longleftrightarrow>
        (j + 1 \<le> k \<and> k < num_bins \<and> box_width < space ! k \<and>
         (\<forall>k'. j + 1 \<le> k' \<and> k' < k \<longrightarrow> \<not> box_width < space ! k'))"
        using 1 True False by simp
      also have "\<dots> \<longleftrightarrow>
        (j \<le> k \<and> k < num_bins \<and> box_width < space ! k \<and>
         (\<forall>k'. j \<le> k' \<and> k' < k \<longrightarrow> \<not> box_width < space ! k'))"
        using False
        by (metis Suc_eq_plus1 Suc_leI le_neq_implies_less nat_le_linear not_less_eq_eq
            order_less_imp_le)
      finally show ?thesis .
    qed
  qed
qed

section \<open>Evaluation\<close>

lemma round_scaled_numeral:
  "round_scaled (numeral n) x =
     (if x < 2 ^ 52 then round_scaled (pred_numeral n) (2 * x) / 2
      else of_int (nearest_even x))"
  by (simp add: numeral_eq_Suc)

lemmas eval_packers =
  next_fit_def next_fit_init_def next_fit_step_def first_fit_def first_fit_init_def
  first_fit_step_def zeros_def Let_def scan.simps bin_contents_def masked_def
  first_fit_decreasing_def first_fit_decreasing_with_def argsort_def take_indices_def
  undo_sort_of_def

lemmas eval_binary64 =
  binary64_def round_magnitude_def binary64_sub_def binary64_sum_def sum_with_def
  round_scaled_numeral nearest_even_def

lemmas eval_validator =
  is_valid_packing_def boolean_index_def add_in_place_def masked_def zeros_def exact_sum_def
  sum_with_def

lemmas eval_loops = first_fit_loop_def next_fit_loop_def

section \<open>Rejected sizes\<close>






section \<open>The empty input\<close>

text \<open>
  Claim C8. On the empty input \<open>next_fit\<close> returns one bin, and that bin has no item:
  its membership vector has no entry.
\<close>

theorem next_fit_empty: "next_fit sub [] = [[]]"
  by (simp add: next_fit_def next_fit_init_def zeros_def)

lemma is_argsort_Nil: "is_argsort [] indices \<longleftrightarrow> indices = []"
  by (auto simp: is_argsort_def is_permutation_def)

text \<open>
  Claim C10. On the empty input \<open>first_fit\<close> and \<open>first_fit_decreasing\<close> return one bin
  with no item: the bin \<open>first_fit\<close> starts with. The only permutation \<open>np.argsort\<close> can
  return on the empty input is the empty one (\<open>is_argsort_Nil\<close>).
\<close>

theorem first_fit_empty:
  "first_fit sub [] = [[]] \<and> first_fit_decreasing sub [] = [[]] \<and>
   first_fit_decreasing_with sub [] [] = [[]]"
  by (simp add: first_fit_def first_fit_init_def zeros_def first_fit_decreasing_def
      first_fit_decreasing_with_def argsort_def take_indices_def undo_sort_of_def)

section \<open>The verdict of the validator\<close>


lemma check_bins_total:
  assumes "\<forall>b \<in> set bs. length b = length box_widths"
    and "\<forall>b \<in> set bs. \<not> exceeds_one (np_sum (masked box_widths b))"
    and "length x = length box_widths"
  shows "check_bins np_sum box_widths bs x =
           Inr (\<forall>i < length box_widths. x ! i + sum_list (map (\<lambda>b. b ! i) bs) = 1)"
  using assms
proof (induction bs arbitrary: x)
  case Nil
  have "(\<not> list_ex (\<lambda>v. v \<noteq> 1) x) \<longleftrightarrow> (\<forall>i < length x. x ! i = 1)"
    by (simp add: list_ex_iff all_set_conv_all_nth)
  with Nil show ?case by simp
next
  case (Cons b bs)
  have len: "length (map2 (+) x b) = length box_widths"
    using Cons.prems by simp
  have "check_bins np_sum box_widths (b # bs) x =
      check_bins np_sum box_widths bs (map2 (+) x b)"
    using Cons.prems by (simp add: boolean_index_def add_in_place_def)
  also have "\<dots> = Inr (\<forall>i < length box_widths.
      map2 (+) x b ! i + sum_list (map (\<lambda>b. b ! i) bs) = 1)"
    using Cons.prems len by (intro Cons.IH) auto
  also have "(\<forall>i < length box_widths. map2 (+) x b ! i + sum_list (map (\<lambda>b. b ! i) bs) = 1)
     \<longleftrightarrow> (\<forall>i < length box_widths. x ! i + sum_list (map (\<lambda>b. b ! i) (b # bs)) = 1)"
    using Cons.prems by (auto simp: add.assoc)
  finally show ?case .
qed



lemma in_unit_interval_guard:
  assumes "\<forall>w \<in> set box_widths. in_unit_interval w"
  shows "\<not> (list_ex exceeds_one box_widths \<or> list_ex below_zero box_widths)"
proof -
  have "\<not> exceeds_one w \<and> \<not> below_zero w" if "in_unit_interval w" for w
    using that by (cases w) auto
  then show ?thesis
    using assms by (auto simp: list_ex_iff)
qed

lemma is_valid_packing_run:
  assumes "\<forall>w \<in> set box_widths. in_unit_interval w"
    and "length b0 = length box_widths"
  shows "is_valid_packing np_sum box_widths (b0 # bs) =
           check_bins np_sum box_widths (b0 # bs) (zeros (length box_widths))"
  using in_unit_interval_guard [OF assms(1)] assms(2) by (simp add: is_valid_packing_def)




text \<open>The five checks that follow \<open>is_valid_packing\<close> in the notebook.\<close>

lemma is_valid_packing_asserts:
  "is_valid_packing exact_sum [Number (3 / 10), Number (6 / 10), Number (9 / 10)]
     [[1, 1, 0], [0, 0, 1]] = Inr True"
  "is_valid_packing exact_sum [Number (3 / 10), Number (6 / 10), Number (9 / 10)]
     [[1, 1, 0], [0, 1, 1]] = Inr False"
  "is_valid_packing exact_sum [Number (3 / 10), Number (6 / 10), Number (9 / 10)]
     [[1, 0, 0], [0, 0, 1]] = Inr False"
  "is_valid_packing exact_sum [Number (3 / 10), Number (6 / 10), Number (9 / 10)]
     [[1, 0, 0], [0, 2, 1]] = Inr False"
  "is_valid_packing exact_sum [Number (3 / 10), Number (6 / 10), Number (9 / 10)]
     [[1, 0, 0], [0, 1, 1]] = Inr False"
  by (simp_all add: eval_validator)

section \<open>The example of the notebook\<close>

lemma next_fit_items:
  "next_fit exact_sub items =
     [[1, 1, 0, 0, 0, 0], [0, 0, 1, 0, 0, 0], [0, 0, 0, 1, 0, 0], [0, 0, 0, 0, 1, 0],
      [0, 0, 0, 0, 0, 1]]"
  by (simp add: items_def eval_packers exact_sub_def)

lemma first_fit_items:
  "first_fit exact_sub items =
     [[1, 1, 0, 0, 0, 1], [0, 0, 1, 0, 0, 0], [0, 0, 0, 1, 0, 0], [0, 0, 0, 0, 1, 0]]"
  by (simp add: items_def eval_packers exact_sub_def)

lemma first_fit_decreasing_items:
  "first_fit_decreasing exact_sub items =
     [[1, 0, 0, 0, 1, 0], [0, 0, 1, 0, 0, 1], [0, 1, 0, 1, 0, 0]]"
  by (simp add: items_def eval_packers exact_sub_def)

text \<open>The floating-point numbers that the decimal numerals of the example denote.\<close>

lemma binary64_items:
  "map binary64 items =
     [6485183463413514 / 2 ^ 56, 6214967485771284 / 2 ^ 53, 7115687411245384 / 2 ^ 53,
      5224175567749775 / 2 ^ 54, 8016407336719483 / 2 ^ 53, 6845471433603154 / 2 ^ 55]"
  by (simp add: items_def eval_binary64)

lemma next_fit_items_binary64:
  "next_fit binary64_sub (map binary64 items) =
     [[1, 1, 0, 0, 0, 0], [0, 0, 1, 0, 0, 0], [0, 0, 0, 1, 0, 0], [0, 0, 0, 0, 1, 0],
      [0, 0, 0, 0, 0, 1]]"
  unfolding binary64_items by (simp add: eval_packers eval_binary64)

lemma first_fit_items_binary64:
  "first_fit binary64_sub (map binary64 items) =
     [[1, 1, 0, 0, 0, 1], [0, 0, 1, 0, 0, 0], [0, 0, 0, 1, 0, 0], [0, 0, 0, 0, 1, 0]]"
  unfolding binary64_items by (simp add: eval_packers eval_binary64)

lemma first_fit_decreasing_items_binary64:
  "first_fit_decreasing binary64_sub (map binary64 items) =
     [[1, 0, 0, 0, 1, 0], [0, 0, 1, 0, 0, 1], [0, 1, 0, 1, 0, 0]]"
  unfolding binary64_items by (simp add: eval_packers eval_binary64)

text \<open>
  Claim C7. On the sizes 0.09, 0.69, 0.79, 0.29, 0.89, 0.19 \<open>next_fit\<close> returns five
  bins, \<open>first_fit\<close> four and \<open>first_fit_decreasing\<close> three, with the contents the claim
  lists; the contents of a bin are read in the order of the items, as \<open>print_bins\<close>
  does. The packings are the same in exact arithmetic and in floating-point arithmetic
  on the floating-point numbers nearest to the six decimal numerals.
\<close>

theorem example_packings:
  "map (bin_contents items) (next_fit exact_sub items) =
     [[9 / 100, 69 / 100], [79 / 100], [29 / 100], [89 / 100], [19 / 100]] \<and>
   map (bin_contents items) (first_fit exact_sub items) =
     [[9 / 100, 69 / 100, 19 / 100], [79 / 100], [29 / 100], [89 / 100]] \<and>
   map (bin_contents items) (first_fit_decreasing exact_sub items) =
     [[9 / 100, 89 / 100], [79 / 100, 19 / 100], [69 / 100, 29 / 100]] \<and>
   map (\<lambda>b. set (bin_contents items b)) (first_fit_decreasing exact_sub items) =
     [{89 / 100, 9 / 100}, {79 / 100, 19 / 100}, {69 / 100, 29 / 100}] \<and>
   next_fit binary64_sub (map binary64 items) = next_fit exact_sub items \<and>
   first_fit binary64_sub (map binary64 items) = first_fit exact_sub items \<and>
   first_fit_decreasing binary64_sub (map binary64 items) =
     first_fit_decreasing exact_sub items"
proof -
  have contents: "map (bin_contents items) (first_fit_decreasing exact_sub items) =
      [[9 / 100, 89 / 100], [79 / 100, 19 / 100], [69 / 100, 29 / 100]]"
    unfolding first_fit_decreasing_items by (simp add: items_def bin_contents_def masked_def)
  have "map (\<lambda>b. set (bin_contents items b)) (first_fit_decreasing exact_sub items) =
      map set (map (bin_contents items) (first_fit_decreasing exact_sub items))"
    by simp
  also have "\<dots> = [{89 / 100, 9 / 100}, {79 / 100, 19 / 100}, {69 / 100, 29 / 100}]"
    unfolding contents by (simp add: insert_commute)
  finally have groups:
    "map (\<lambda>b. set (bin_contents items b)) (first_fit_decreasing exact_sub items) =
      [{89 / 100, 9 / 100}, {79 / 100, 19 / 100}, {69 / 100, 29 / 100}]" .
  have "map (bin_contents items) (next_fit exact_sub items) =
      [[9 / 100, 69 / 100], [79 / 100], [29 / 100], [89 / 100], [19 / 100]]"
    unfolding next_fit_items by (simp add: items_def bin_contents_def masked_def)
  moreover have "map (bin_contents items) (first_fit exact_sub items) =
      [[9 / 100, 69 / 100, 19 / 100], [79 / 100], [29 / 100], [89 / 100]]"
    unfolding first_fit_items by (simp add: items_def bin_contents_def masked_def)
  ultimately show ?thesis
    using contents groups
    by (simp only: next_fit_items first_fit_items first_fit_decreasing_items
        next_fit_items_binary64 first_fit_items_binary64 first_fit_decreasing_items_binary64
        simp_thms)
qed

section \<open>Loops over the items\<close>

lemma fold_upt_Suc: "fold f [0..<Suc k] s = f k (fold f [0..<k] s)"
  by simp

lemma one_in_update: "i < length b \<Longrightarrow> (1::int) \<in> set (b[i := 1])"
  by (rule set_update_memI)

lemma one_stays: "(1::int) \<in> set b \<Longrightarrow> 1 \<in> set (b[i := 1])"
  by (metis in_set_conv_nth length_list_update nth_list_update_eq nth_list_update_neq)


lemma next_fit_no_empty_bin_inv:
  assumes "box_widths ! 0 \<le> 1" and "k < length box_widths"
  shows "length (nf_current_bin (fold (next_fit_step sub box_widths) [0..<Suc k]
            (next_fit_init box_widths))) = length box_widths \<and>
         (\<forall>b \<in> set (all_bins (fold (next_fit_step sub box_widths) [0..<Suc k]
            (next_fit_init box_widths))). 1 \<in> set b)"
  using assms(2)
proof (induction k)
  case 0
  then show ?case
    using assms(1)
    by (simp add: next_fit_init_def next_fit_step_def all_bins_def zeros_def one_in_update)
next
  case (Suc k)
  let ?s = "fold (next_fit_step sub box_widths) [0..<Suc k] (next_fit_init box_widths)"
  have IH: "length (nf_current_bin ?s) = length box_widths"
    "\<forall>b \<in> set (all_bins ?s). 1 \<in> set b"
    using Suc by simp_all
  have step: "fold (next_fit_step sub box_widths) [0..<Suc (Suc k)] (next_fit_init box_widths)
      = next_fit_step sub box_widths (Suc k) ?s"
    by (rule fold_upt_Suc)
  show ?case
    unfolding step using IH Suc.prems
    by (auto simp: next_fit_step_def all_bins_def zeros_def Let_def one_in_update one_stays)
qed

lemma next_fit_no_empty_bin:
  assumes "box_widths \<noteq> []" and "box_widths ! 0 \<le> 1" and "b \<in> set (next_fit sub box_widths)"
  shows "1 \<in> set b"
proof -
  obtain k where k: "length box_widths = Suc k"
    using assms(1) by (cases box_widths) auto
  then have "k < length box_widths" by simp
  from next_fit_no_empty_bin_inv [OF assms(2) this, of sub] assms(3) show ?thesis
    by (auto simp: next_fit_def all_bins_def k Let_def simp del: upt_Suc fold_append)
qed

lemma first_fit_no_empty_bin_inv:
  assumes "box_widths ! 0 < 1" and "k < length box_widths"
  shows "\<forall>b \<in> set (ff_bins (fold (first_fit_step sub box_widths) [0..<Suc k]
            (first_fit_init box_widths))). length b = length box_widths \<and> 1 \<in> set b"
  using assms(2)
proof (induction k)
  case 0
  have "scan (box_widths ! 0) [1] (Suc 0) 0 = Some 0"
    using assms(1) by (simp add: scan.simps)
  with 0 show ?case
    by (simp add: first_fit_init_def first_fit_step_def zeros_def one_in_update)
next
  case (Suc k)
  let ?s = "fold (first_fit_step sub box_widths) [0..<Suc k] (first_fit_init box_widths)"
  have IH: "\<forall>b \<in> set (ff_bins ?s). length b = length box_widths \<and> 1 \<in> set b"
    using Suc by simp
  have step: "fold (first_fit_step sub box_widths) [0..<Suc (Suc k)] (first_fit_init box_widths)
      = first_fit_step sub box_widths (Suc k) ?s"
    by (rule fold_upt_Suc)
  show ?case
  proof (cases "scan (box_widths ! Suc k) (ff_available_space ?s) (length (ff_bins ?s)) 0")
    case None
    then show ?thesis
      unfolding step using IH Suc.prems
      by (auto simp: first_fit_step_def zeros_def one_in_update)
  next
    case (Some j)
    then have j: "j < length (ff_bins ?s)"
      by (simp add: scan_Some)
    have "length b = length box_widths \<and> 1 \<in> set b"
      if "b \<in> set ((ff_bins ?s)[j := (ff_bins ?s ! j)[Suc k := 1]])" for b
    proof -
      from that have "b = (ff_bins ?s ! j)[Suc k := 1] \<or> b \<in> set (ff_bins ?s)"
        using set_update_subset_insert by fastforce
      then show ?thesis
        using IH j by (auto simp: one_stays)
    qed
    then show ?thesis
      unfolding step using Some by (simp add: first_fit_step_def)
  qed
qed

lemma first_fit_no_empty_bin:
  assumes "box_widths \<noteq> []" and "box_widths ! 0 < 1" and "b \<in> set (first_fit sub box_widths)"
  shows "length b = length box_widths \<and> 1 \<in> set b"
proof -
  obtain k where k: "length box_widths = Suc k"
    using assms(1) by (cases box_widths) auto
  then have "k < length box_widths" by simp
  from first_fit_no_empty_bin_inv [OF assms(2) this, of sub] assms(3) show ?thesis
    by (auto simp: first_fit_def k simp del: upt_Suc fold_append)
qed

section \<open>Sorting and unsorting\<close>

lemma is_permutation_length: "is_permutation n indices \<Longrightarrow> length indices = n"
  by (metis is_permutation_def card_atLeastLessThan diff_zero distinct_card)

lemma is_permutation_nth: "is_permutation n indices \<Longrightarrow> k < n \<Longrightarrow> indices ! k < n"
  by (metis is_permutation_def is_permutation_length atLeastLessThan_iff nth_mem)

lemma is_permutation_position:
  assumes "is_permutation n indices" and "i < n"
  shows "\<exists>k < n. indices ! k = i"
proof -
  have "i \<in> set indices"
    using assms by (simp add: is_permutation_def)
  then show ?thesis
    using is_permutation_length [OF assms(1)] by (auto simp: in_set_conv_nth)
qed

lemma undo_sort_fold:
  assumes "distinct indices" and "\<forall>k < length indices. indices ! k < length u"
    and "m \<le> length indices"
  shows "length (fold (\<lambda>k undo_sort. undo_sort[indices ! k := k]) [0..<m] u) = length u \<and>
         (\<forall>k < m. fold (\<lambda>k undo_sort. undo_sort[indices ! k := k]) [0..<m] u ! (indices ! k) = k)"
  using assms(3)
proof (induction m)
  case 0
  then show ?case by simp
next
  case (Suc m)
  let ?u = "fold (\<lambda>k undo_sort. undo_sort[indices ! k := k]) [0..<m] u"
  have IH: "length ?u = length u" "\<forall>k < m. ?u ! (indices ! k) = k"
    using Suc by simp_all
  have "?u[indices ! m := m] ! (indices ! k) = k" if "k < Suc m" for k
  proof (cases "k = m")
    case True
    then show ?thesis
      using IH(1) assms(2) Suc.prems by simp
  next
    case False
    then have "indices ! k \<noteq> indices ! m"
      using assms(1) Suc.prems that by (simp add: nth_eq_iff_index_eq)
    then show ?thesis
      using IH(2) that False by simp
  qed
  then show ?case
    using IH(1) by simp
qed

lemma undo_sort_of_length: "length (undo_sort_of indices) = length indices"
proof -
  have "length (fold (\<lambda>k undo_sort. undo_sort[indices ! k := k]) [0..<m] u) = length u" for m u
    by (induction m) simp_all
  then show ?thesis
    by (simp add: undo_sort_of_def)
qed

lemma undo_sort_of_nth:
  assumes "is_permutation n indices" and "k < n"
  shows "undo_sort_of indices ! (indices ! k) = k"
proof -
  have len: "length indices = n"
    using assms(1) by (rule is_permutation_length)
  have "\<forall>k < length indices. indices ! k < length (replicate (length indices) (0::nat))"
    using assms(1) len by (simp add: is_permutation_nth)
  with undo_sort_fold [of indices "replicate (length indices) 0" "length indices"]
  show ?thesis
    using assms len by (simp add: undo_sort_of_def is_permutation_def)
qed

lemma take_indices_undo_sort:
  assumes "is_permutation n indices" and "k < n"
  shows "take_indices b (undo_sort_of indices) ! (indices ! k) = b ! k"
  using assms
  by (simp add: take_indices_def undo_sort_of_length is_permutation_length
      is_permutation_nth undo_sort_of_nth)


lemma is_argsort_permutation:
  "is_argsort keys indices \<Longrightarrow> is_permutation (length keys) indices"
  by (simp add: is_argsort_def)

lemma argsort_is_argsort: "is_argsort keys (argsort keys)"
  by (simp add: is_argsort_def is_permutation_def argsort_def sorted_sort_key)

lemma is_argsort_unique:
  assumes "distinct keys" and "is_argsort keys indices"
  shows "indices = argsort keys"
proof -
  have inj: "inj_on (\<lambda>i. keys ! i) {0..<length keys}"
    using assms(1) by (auto simp: inj_on_def nth_eq_iff_index_eq)
  have a: "set indices = {0..<length keys}" "distinct indices"
    "sorted (map (\<lambda>i. keys ! i) indices)"
    using assms(2) by (simp_all add: is_argsort_def is_permutation_def)
  have b: "set (argsort keys) = {0..<length keys}" "distinct (argsort keys)"
    "sorted (map (\<lambda>i. keys ! i) (argsort keys))"
    using argsort_is_argsort [of keys] by (simp_all add: is_argsort_def is_permutation_def)
  show ?thesis
  proof (rule map_sorted_distinct_set_unique [of "\<lambda>i. keys ! i"])
    show "inj_on (\<lambda>i. keys ! i) (set indices \<union> set (argsort keys))"
      using inj a(1) b(1) by simp
    show "distinct (map (\<lambda>i. keys ! i) indices)"
      using inj a by (simp add: distinct_map)
    show "distinct (map (\<lambda>i. keys ! i) (argsort keys))"
      using inj b by (simp add: distinct_map)
  qed (use a b in simp_all)
qed

lemma argsort_items: "argsort (map uminus items) = [4, 2, 1, 3, 5, 0]"
  by (simp add: items_def argsort_def)


text \<open>
  Claim C2. Let \<open>indices\<close> be a result of \<open>np.argsort(-box_widths)\<close>. The packing that
  \<open>first_fit_decreasing\<close> returns has the bins of \<open>first_fit\<close> on the sorted sizes, each
  a vector over the items in their original order: the item at position \<open>k\<close> of the
  sorted sequence is item \<open>indices ! k\<close>, and the entry of item \<open>indices ! k\<close> in bin \<open>j\<close>
  of the result is the entry of position \<open>k\<close> in bin \<open>j\<close> of \<open>first_fit\<close>. Every item \<open>i\<close>
  has such a position \<open>k\<close>.
\<close>

theorem first_fit_decreasing_original_order:
  assumes "is_argsort (map uminus box_widths) indices"
  shows "length (first_fit_decreasing_with sub indices box_widths) =
           length (first_fit sub (take_indices box_widths indices)) \<and>
         (\<forall>j < length (first_fit sub (take_indices box_widths indices)).
            length (first_fit_decreasing_with sub indices box_widths ! j) = length box_widths \<and>
            (\<forall>k < length box_widths.
               first_fit_decreasing_with sub indices box_widths ! j ! (indices ! k) =
               first_fit sub (take_indices box_widths indices) ! j ! k) \<and>
            (\<forall>i < length box_widths. \<exists>k < length box_widths. indices ! k = i \<and>
               first_fit_decreasing_with sub indices box_widths ! j ! i =
               first_fit sub (take_indices box_widths indices) ! j ! k))"
proof -
  have perm: "is_permutation (length box_widths) indices"
    using is_argsort_permutation [OF assms] by simp
  have len: "length (undo_sort_of indices) = length box_widths"
    using perm by (simp add: undo_sort_of_length is_permutation_length)
  have eq: "first_fit_decreasing_with sub indices box_widths ! j ! (indices ! k) =
      first_fit sub (take_indices box_widths indices) ! j ! k"
    if "j < length (first_fit sub (take_indices box_widths indices))"
      and "k < length box_widths" for j k
    using that take_indices_undo_sort [OF perm that(2)]
    by (simp add: first_fit_decreasing_with_def)
  have "\<exists>k < length box_widths. indices ! k = i \<and>
      first_fit_decreasing_with sub indices box_widths ! j ! i =
      first_fit sub (take_indices box_widths indices) ! j ! k"
    if "j < length (first_fit sub (take_indices box_widths indices))"
      and "i < length box_widths" for j i
  proof -
    from is_permutation_position [OF perm that(2)]
    obtain k where "k < length box_widths" "indices ! k = i" by blast
    with eq [OF that(1) this(1)] show ?thesis by auto
  qed
  with eq len show ?thesis
    by (simp add: first_fit_decreasing_with_def take_indices_def)
qed

text \<open>
  In the notebook's example the item of size 0.09, item 0, is last in decreasing order,
  at position 5.
\<close>

theorem first_fit_decreasing_original_order_witness:
  "is_argsort (map uminus items) [4, 2, 1, 3, 5, 0] \<and>
   [4, 2, 1, 3, 5, 0] ! 5 = (0::nat) \<and>
   first_fit_decreasing_with exact_sub [4, 2, 1, 3, 5, 0] items ! 0 ! 0 =
     first_fit exact_sub (take_indices items [4, 2, 1, 3, 5, 0]) ! 0 ! 5"
proof -
  have h: "is_argsort (map uminus items) [4, 2, 1, 3, 5, 0]"
    using argsort_is_argsort [of "map uminus items"] by (simp only: argsort_items)
  have bins: "0 < length (first_fit exact_sub (take_indices items [4, 2, 1, 3, 5, 0]))"
    by (simp add: items_def eval_packers exact_sub_def)
  have item: "5 < length items"
    by (simp add: items_def)
  from first_fit_decreasing_original_order [OF h, of exact_sub] bins item
  have "first_fit_decreasing_with exact_sub [4, 2, 1, 3, 5, 0] items ! 0 !
      ([4, 2, 1, 3, 5, 0] ! 5) =
    first_fit exact_sub (take_indices items [4, 2, 1, 3, 5, 0]) ! 0 ! 5"
    by blast
  with h show ?thesis by simp
qed

section \<open>No empty bin\<close>

lemma first_fit_decreasing_no_empty_bin:
  assumes "box_widths \<noteq> []" and "\<forall>w \<in> set box_widths. w < 1"
    and "is_permutation (length box_widths) indices"
    and "b \<in> set (first_fit_decreasing_with sub indices box_widths)"
  shows "1 \<in> set b"
proof -
  let ?sorted = "take_indices box_widths indices"
  have len: "length indices = length box_widths"
    using assms(3) by (rule is_permutation_length)
  then have sorted_len: "length ?sorted = length box_widths"
    by (simp add: take_indices_def)
  have ne: "?sorted \<noteq> []"
    using assms(1) sorted_len by auto
  have "indices ! 0 < length box_widths"
    using assms(1,3) by (simp add: is_permutation_nth)
  then have first: "?sorted ! 0 < 1"
    using assms(1,2) len by (simp add: take_indices_def)
  from assms(4) obtain b' where b': "b' \<in> set (first_fit sub ?sorted)"
    and b: "b = take_indices b' (undo_sort_of indices)"
    by (auto simp: first_fit_decreasing_with_def)
  from first_fit_no_empty_bin [OF ne first b']
  have "length b' = length box_widths" "1 \<in> set b'"
    using sorted_len by simp_all
  then obtain k where k: "k < length box_widths" "b' ! k = 1"
    by (auto simp: in_set_conv_nth)
  have "b ! (indices ! k) = 1"
    using take_indices_undo_sort [OF assms(3) k(1), of b'] k(2) b by simp
  moreover have "indices ! k < length b"
    using k(1) assms(3) len
    by (simp add: b take_indices_def undo_sort_of_length is_permutation_nth)
  ultimately show ?thesis
    by (metis nth_mem)
qed


text \<open>
  Claim C9. For at least one item and sizes strictly between 0 and 1, every bin that
  \<open>next_fit\<close>, \<open>first_fit\<close> and \<open>first_fit_decreasing\<close> return holds an item: its
  membership vector has an entry 1. This holds for any arithmetic, and for every result
  \<open>np.argsort\<close> may return.
\<close>

theorem no_empty_bin:
  assumes "box_widths \<noteq> []" and "\<forall>w \<in> set box_widths. 0 < w \<and> w < 1"
    and "is_argsort (map uminus box_widths) indices"
  shows "(\<forall>b \<in> set (next_fit sub box_widths). 1 \<in> set b) \<and>
         (\<forall>b \<in> set (first_fit sub box_widths). 1 \<in> set b) \<and>
         (\<forall>b \<in> set (first_fit_decreasing_with sub indices box_widths). 1 \<in> set b)"
proof -
  have first: "box_widths ! 0 < 1"
    using assms(1,2) by (cases box_widths) auto
  have perm: "is_permutation (length box_widths) indices"
    using is_argsort_permutation [OF assms(3)] by simp
  have "\<forall>b \<in> set (next_fit sub box_widths). 1 \<in> set b"
    using next_fit_no_empty_bin [OF assms(1)] first by auto
  moreover have "\<forall>b \<in> set (first_fit sub box_widths). 1 \<in> set b"
    using first_fit_no_empty_bin [OF assms(1) first] by auto
  moreover have "\<forall>b \<in> set (first_fit_decreasing_with sub indices box_widths). 1 \<in> set b"
    using first_fit_decreasing_no_empty_bin [OF assms(1) _ perm] assms(2) by auto
  ultimately show ?thesis by simp
qed

theorem no_empty_bin_witness:
  "items \<noteq> [] \<and> list_all (\<lambda>w. 0 < w \<and> w < 1) items \<and>
   list_all (\<lambda>b. 1 \<in> set b) (next_fit exact_sub items) \<and>
   list_all (\<lambda>b. 1 \<in> set b) (first_fit exact_sub items) \<and>
   list_all (\<lambda>b. 1 \<in> set b) (first_fit_decreasing_with exact_sub [4, 2, 1, 3, 5, 0] items)"
proof -
  have h: "is_argsort (map uminus items) [4, 2, 1, 3, 5, 0]"
    using argsort_is_argsort [of "map uminus items"] by (simp only: argsort_items)
  have ne: "items \<noteq> []" and sizes: "\<forall>w \<in> set items. 0 < w \<and> w < 1"
    by (simp_all add: items_def)
  from no_empty_bin [OF ne sizes h, of exact_sub] ne sizes show ?thesis
    by (simp add: list_all_iff)
qed

section \<open>Feasibility in exact arithmetic\<close>

lemma column_sum_update:
  "j < length bs \<Longrightarrow>
     sum_list (map (\<lambda>b. b ! i) (bs[j := c])) =
     sum_list (map (\<lambda>b. b ! i) bs) - bs ! j ! i + (c ! i :: int)"
proof (induction bs arbitrary: j)
  case Nil
  then show ?case by simp
next
  case (Cons b bs)
  then show ?case by (cases j) auto
qed

lemma packed_upto_entry_zero:
  assumes "packed_upto n k bs" and "b \<in> set bs" and "k \<le> i" and "i < n"
  shows "b ! i = 0"
proof -
  have "sum_list (map (\<lambda>b. b ! i) bs) = 0"
    using assms by (simp add: packed_upto_def)
  moreover have "0 \<le> x" if "x \<in> set (map (\<lambda>b. b ! i) bs)" for x
  proof -
    from that obtain b' where "b' \<in> set bs" "x = b' ! i" by auto
    then have "x = 0 \<or> x = 1"
      using assms(1,4) by (auto simp: packed_upto_def is_membership_vector_def list_all_length)
    then show ?thesis by auto
  qed
  ultimately have "\<forall>x \<in> set (map (\<lambda>b. b ! i) bs). x = 0"
    by (simp only: sum_list_nonneg_eq_0_iff)
  then show ?thesis
    using assms(2) by simp
qed

lemma is_membership_vector_place:
  "is_membership_vector n b \<Longrightarrow> is_membership_vector n (b[k := 1])"
  using set_update_subset_insert [of b k 1]
  by (auto simp: is_membership_vector_def list_all_iff)

lemma is_membership_vector_zeros: "is_membership_vector n (zeros n)"
  by (simp add: is_membership_vector_def zeros_def list_all_iff)

lemma packed_upto_init: "packed_upto n 0 [zeros n]"
  by (simp add: packed_upto_def is_membership_vector_zeros) (simp add: zeros_def)

lemma packed_upto_place:
  assumes "packed_upto n k bs" and "k < n" and "j < length bs"
  shows "packed_upto n (Suc k) (bs[j := (bs ! j)[k := 1]])"
proof -
  have vec: "is_membership_vector n (bs ! j)"
    using assms(1,3) by (simp add: packed_upto_def)
  then have len: "length (bs ! j) = n"
    by (simp add: is_membership_vector_def)
  have zero: "bs ! j ! k = 0"
    using packed_upto_entry_zero [OF assms(1) _ _ assms(2)] assms(3) by simp
  have "is_membership_vector n b" if "b \<in> set (bs[j := (bs ! j)[k := 1]])" for b
  proof -
    from that have "b = (bs ! j)[k := 1] \<or> b \<in> set bs"
      using set_update_subset_insert by fastforce
    then show ?thesis
      using vec assms(1) by (auto simp: is_membership_vector_place packed_upto_def)
  qed
  moreover have "sum_list (map (\<lambda>b. b ! i) (bs[j := (bs ! j)[k := 1]])) =
      (if i < Suc k then 1 else 0)" if "i < n" for i
  proof -
    have "sum_list (map (\<lambda>b. b ! i) (bs[j := (bs ! j)[k := 1]])) =
        sum_list (map (\<lambda>b. b ! i) bs) - bs ! j ! i + (bs ! j)[k := 1] ! i"
      using assms(3) by (rule column_sum_update)
    also have "\<dots> = (if i < k then 1 else 0) - bs ! j ! i + (bs ! j)[k := 1] ! i"
      using assms(1) that by (simp add: packed_upto_def)
    also have "\<dots> = (if i < Suc k then 1 else 0)"
      using zero len assms(2) by (cases "i = k") auto
    finally show ?thesis .
  qed
  ultimately show ?thesis
    by (simp add: packed_upto_def)
qed

lemma packed_upto_open:
  assumes "packed_upto n k bs" and "k < n"
  shows "packed_upto n (Suc k) (bs @ [(zeros n)[k := 1]])"
proof -
  have "sum_list (map (\<lambda>b. b ! i) (bs @ [(zeros n)[k := 1]])) = (if i < Suc k then 1 else 0)"
    if "i < n" for i
    using assms that by (cases "i = k") (auto simp: packed_upto_def zeros_def)
  then show ?thesis
    using assms(1)
    by (auto simp: packed_upto_def is_membership_vector_place is_membership_vector_zeros)
qed

lemma sum_list_masked:
  fixes box_widths :: "real list"
  assumes "length b = length box_widths"
  shows "sum_list (masked box_widths b) =
           (\<Sum>i < length box_widths. if b ! i = 1 then box_widths ! i else 0)"
proof -
  have "sum_list (masked box_widths b) =
      sum_list (map (\<lambda>p. if snd p = 1 then fst p else 0) (zip box_widths b))"
    by (simp add: masked_def sum_list_map_filter')
  also have "\<dots> = (\<Sum>i < length box_widths. if b ! i = 1 then box_widths ! i else 0)"
    using assms by (auto simp: sum_list_sum_nth atLeast0LessThan intro!: sum.cong)
  finally show ?thesis .
qed

lemma sum_list_masked_place:
  fixes box_widths :: "real list"
  assumes "length b = length box_widths" and "k < length box_widths" and "b ! k = 0"
  shows "sum_list (masked box_widths (b[k := 1])) = sum_list (masked box_widths b) + box_widths ! k"
proof -
  let ?f = "\<lambda>b i. if b ! i = 1 then box_widths ! i else 0"
  have "sum_list (masked box_widths (b[k := 1])) = (\<Sum>i < length box_widths. ?f (b[k := 1]) i)"
    using assms(1) by (simp add: sum_list_masked)
  also have "\<dots> = ?f (b[k := 1]) k + (\<Sum>i \<in> {..<length box_widths} - {k}. ?f (b[k := 1]) i)"
    using assms(2) by (simp add: sum.remove)
  also have "(\<Sum>i \<in> {..<length box_widths} - {k}. ?f (b[k := 1]) i) =
      (\<Sum>i \<in> {..<length box_widths} - {k}. ?f b i)"
    by (rule sum.cong) auto
  also have "?f (b[k := 1]) k = box_widths ! k + ?f b k"
    using assms by simp
  also have "box_widths ! k + ?f b k + (\<Sum>i \<in> {..<length box_widths} - {k}. ?f b i) =
      box_widths ! k + (\<Sum>i < length box_widths. ?f b i)"
    using assms(2) by (simp add: sum.remove [of _ k])
  also have "(\<Sum>i < length box_widths. ?f b i) = sum_list (masked box_widths b)"
    using assms(1) by (simp add: sum_list_masked)
  finally show ?thesis by simp
qed

lemma sum_list_masked_zeros: "sum_list (masked (box_widths :: real list) (zeros n)) = 0"
proof -
  have "filter (\<lambda>p. snd p = 1) (zip box_widths (replicate n (0::int))) = []"
    by (auto simp: filter_empty_conv dest: set_zip_rightD)
  then show ?thesis by (simp add: masked_def zeros_def)
qed


lemma next_fit_inv_init: "next_fit_inv box_widths 0 (next_fit_init box_widths)"
  using packed_upto_init [of "length box_widths"]
  by (simp add: next_fit_inv_def next_fit_init_def all_bins_def sum_list_masked_zeros)

lemma next_fit_inv_step:
  assumes "next_fit_inv box_widths k s" and "k < length box_widths"
    and "box_widths ! k \<le> 1"
  shows "next_fit_inv box_widths (Suc k) (next_fit_step exact_sub box_widths k s)"
proof -
  let ?n = "length box_widths"
  have packed: "packed_upto ?n k (all_bins s)"
    and closed: "\<forall>b \<in> set (nf_bins s). sum_list (masked box_widths b) \<le> 1"
    and space: "nf_available_space s = 1 - sum_list (masked box_widths (nf_current_bin s))"
    and nonneg: "sum_list (masked box_widths (nf_current_bin s)) \<le> 1"
    using assms(1) unfolding next_fit_inv_def by blast+
  have cur: "is_membership_vector ?n (nf_current_bin s)"
    using packed by (simp add: packed_upto_def all_bins_def)
  then have len: "length (nf_current_bin s) = ?n"
    by (simp add: is_membership_vector_def)
  have zero: "nf_current_bin s ! k = 0"
    using packed_upto_entry_zero [OF packed _ _ assms(2), of "nf_current_bin s"]
    by (simp add: all_bins_def)
  show ?thesis
  proof (cases "box_widths ! k > nf_available_space s")
    case True
    have s': "next_fit_step exact_sub box_widths k s =
        \<lparr>nf_bins = nf_bins s @ [nf_current_bin s],
         nf_current_bin = (zeros ?n)[k := 1],
         nf_available_space = 1 - box_widths ! k\<rparr>"
      using True by (simp add: next_fit_step_def exact_sub_def)
    have "sum_list (masked box_widths ((zeros ?n)[k := 1])) = box_widths ! k"
      using sum_list_masked_place [of "zeros ?n" box_widths k] assms(2)
      by (simp add: sum_list_masked_zeros) (simp add: zeros_def)
    moreover note nonneg
    moreover have "packed_upto ?n (Suc k) (all_bins s @ [(zeros ?n)[k := 1]])"
      using packed assms(2) by (rule packed_upto_open)
    ultimately show ?thesis
      using closed assms(3) by (simp add: next_fit_inv_def s' all_bins_def)
  next
    case False
    have s': "next_fit_step exact_sub box_widths k s =
        \<lparr>nf_bins = nf_bins s,
         nf_current_bin = (nf_current_bin s)[k := 1],
         nf_available_space = nf_available_space s - box_widths ! k\<rparr>"
      using False by (simp add: next_fit_step_def exact_sub_def)
    have "packed_upto ?n (Suc k)
        ((all_bins s)[length (nf_bins s) := (all_bins s ! length (nf_bins s))[k := 1]])"
      using packed assms(2) by (rule packed_upto_place) (simp add: all_bins_def)
    then have "packed_upto ?n (Suc k) (nf_bins s @ [(nf_current_bin s)[k := 1]])"
      by (simp add: all_bins_def)
    moreover have "sum_list (masked box_widths ((nf_current_bin s)[k := 1])) =
        sum_list (masked box_widths (nf_current_bin s)) + box_widths ! k"
      using len assms(2) zero by (rule sum_list_masked_place)
    ultimately show ?thesis
      using closed space False by (simp add: next_fit_inv_def s' all_bins_def)
  qed
qed

lemma next_fit_inv_fold:
  assumes "\<forall>w \<in> set box_widths. w \<le> 1" and "k \<le> length box_widths"
  shows "next_fit_inv box_widths k
           (fold (next_fit_step exact_sub box_widths) [0..<k] (next_fit_init box_widths))"
  using assms(2)
proof (induction k)
  case 0
  then show ?case by (simp add: next_fit_inv_init)
next
  case (Suc k)
  then have "next_fit_inv box_widths k
      (fold (next_fit_step exact_sub box_widths) [0..<k] (next_fit_init box_widths))"
    by simp
  moreover have "box_widths ! k \<le> 1"
    using assms(1) Suc.prems by simp
  ultimately show ?case
    unfolding fold_upt_Suc using Suc.prems by (intro next_fit_inv_step) simp_all
qed

lemma first_fit_inv_init: "first_fit_inv box_widths 0 (first_fit_init box_widths)"
  using packed_upto_init [of "length box_widths"]
  by (simp add: first_fit_inv_def first_fit_init_def sum_list_masked_zeros)

lemma first_fit_inv_step:
  assumes "first_fit_inv box_widths k s" and "k < length box_widths"
    and "box_widths ! k \<le> 1"
  shows "first_fit_inv box_widths (Suc k) (first_fit_step exact_sub box_widths k s)"
proof -
  let ?n = "length box_widths"
  have packed: "packed_upto ?n k (ff_bins s)"
    and lens: "length (ff_available_space s) = length (ff_bins s)"
    and space: "\<forall>j < length (ff_bins s).
         ff_available_space s ! j = 1 - sum_list (masked box_widths (ff_bins s ! j)) \<and>
         sum_list (masked box_widths (ff_bins s ! j)) \<le> 1"
    using assms(1) unfolding first_fit_inv_def by blast+
  show ?thesis
  proof (cases "scan (box_widths ! k) (ff_available_space s) (length (ff_bins s)) 0")
    case None
    then have s': "first_fit_step exact_sub box_widths k s =
        \<lparr>ff_bins = ff_bins s @ [(zeros ?n)[k := 1]],
         ff_available_space = ff_available_space s @ [1 - box_widths ! k]\<rparr>"
      by (simp add: first_fit_step_def exact_sub_def)
    have "sum_list (masked box_widths ((zeros ?n)[k := 1])) = box_widths ! k"
      using sum_list_masked_place [of "zeros ?n" box_widths k] assms(2)
      by (simp add: sum_list_masked_zeros) (simp add: zeros_def)
    moreover have "packed_upto ?n (Suc k) (ff_bins s @ [(zeros ?n)[k := 1]])"
      using packed assms(2) by (rule packed_upto_open)
    ultimately show ?thesis
      using lens space assms(3)
      by (auto simp: first_fit_inv_def s' nth_append less_Suc_eq)
  next
    case (Some j)
    then have j: "j < length (ff_bins s)" and fits: "box_widths ! k < ff_available_space s ! j"
      by (simp_all add: scan_Some)
    have s': "first_fit_step exact_sub box_widths k s =
        \<lparr>ff_bins = (ff_bins s)[j := (ff_bins s ! j)[k := 1]],
         ff_available_space =
           (ff_available_space s)[j := ff_available_space s ! j - box_widths ! k]\<rparr>"
      using Some by (simp add: first_fit_step_def exact_sub_def)
    have vec: "is_membership_vector ?n (ff_bins s ! j)"
      using packed j by (simp add: packed_upto_def)
    have zero: "ff_bins s ! j ! k = 0"
      using packed_upto_entry_zero [OF packed _ _ assms(2)] j by simp
    have sum: "sum_list (masked box_widths ((ff_bins s ! j)[k := 1])) =
        sum_list (masked box_widths (ff_bins s ! j)) + box_widths ! k"
      using vec assms(2) zero by (intro sum_list_masked_place) (simp_all add: is_membership_vector_def)
    have "packed_upto ?n (Suc k) ((ff_bins s)[j := (ff_bins s ! j)[k := 1]])"
      using packed assms(2) j by (rule packed_upto_place)
    moreover have "(ff_available_space s)[j := ff_available_space s ! j - box_widths ! k] ! j' =
          1 - sum_list (masked box_widths ((ff_bins s)[j := (ff_bins s ! j)[k := 1]] ! j')) \<and>
        sum_list (masked box_widths ((ff_bins s)[j := (ff_bins s ! j)[k := 1]] ! j')) \<le> 1"
      if "j' < length (ff_bins s)" for j'
      using that space lens j fits sum by (cases "j' = j") auto
    ultimately show ?thesis
      using lens by (simp add: first_fit_inv_def s')
  qed
qed

lemma first_fit_inv_fold:
  assumes "\<forall>w \<in> set box_widths. w \<le> 1" and "k \<le> length box_widths"
  shows "first_fit_inv box_widths k
           (fold (first_fit_step exact_sub box_widths) [0..<k] (first_fit_init box_widths))"
  using assms(2)
proof (induction k)
  case 0
  then show ?case by (simp add: first_fit_inv_init)
next
  case (Suc k)
  then have "first_fit_inv box_widths k
      (fold (first_fit_step exact_sub box_widths) [0..<k] (first_fit_init box_widths))"
    by simp
  moreover have "box_widths ! k \<le> 1"
    using assms(1) Suc.prems by simp
  ultimately show ?case
    unfolding fold_upt_Suc using Suc.prems by (intro first_fit_inv_step) simp_all
qed

lemma masked_map: "masked (map f a) b = map f (masked a b)"
  by (simp add: masked_def zip_map1 filter_map comp_def case_prod_unfold)

lemma exact_sum_numbers: "exact_sum (map Number xs) = Number (sum_list xs)"
  by (auto simp: exact_sum_def sum_with_def list_ex_iff comp_def)

lemma is_valid_packing_packed:
  assumes "\<forall>w \<in> set box_widths. 0 \<le> w \<and> w \<le> 1"
    and "bs \<noteq> []"
    and "packed_upto (length box_widths) (length box_widths) bs"
    and "\<forall>b \<in> set bs. sum_list (masked box_widths b) \<le> 1"
  shows "is_valid_packing exact_sum (map Number box_widths) bs = Inr True"
proof -
  let ?ws = "map Number box_widths"
  from assms(2) obtain b0 bs' where bs: "bs = b0 # bs'"
    by (cases bs) auto
  have sizes: "\<forall>w \<in> set ?ws. in_unit_interval w"
    using assms(1) by auto
  have lens: "\<forall>b \<in> set bs. length b = length ?ws"
    using assms(3) by (simp add: packed_upto_def is_membership_vector_def)
  have sums: "\<forall>b \<in> set bs. \<not> exceeds_one (exact_sum (masked ?ws b))"
    using assms(4) by (simp add: masked_map exact_sum_numbers not_less)
  have "is_valid_packing exact_sum ?ws bs = check_bins exact_sum ?ws bs (zeros (length ?ws))"
    using is_valid_packing_run [OF sizes, where ?b0.0 = b0 and bs = bs'] lens
    by (simp add: bs)
  also have "\<dots> = Inr (\<forall>i < length ?ws.
      zeros (length ?ws) ! i + sum_list (map (\<lambda>b. b ! i) bs) = 1)"
    using lens sums by (intro check_bins_total) (auto simp: zeros_def)
  also have "(\<forall>i < length ?ws.
      zeros (length ?ws) ! i + sum_list (map (\<lambda>b. b ! i) bs) = 1) \<longleftrightarrow> True"
    using assms(3) by (simp add: packed_upto_def zeros_def)
  finally show ?thesis .
qed

lemma next_fit_feasible:
  assumes "\<forall>w \<in> set box_widths. 0 \<le> w \<and> w \<le> 1"
  shows "is_valid_packing exact_sum (map Number box_widths) (next_fit exact_sub box_widths) =
           Inr True"
proof -
  let ?s = "fold (next_fit_step exact_sub box_widths) [0..<length box_widths]
      (next_fit_init box_widths)"
  have "next_fit_inv box_widths (length box_widths) ?s"
    using assms by (intro next_fit_inv_fold) auto
  then have "packed_upto (length box_widths) (length box_widths) (all_bins ?s)"
    and "\<forall>b \<in> set (all_bins ?s). sum_list (masked box_widths b) \<le> 1"
    by (auto simp: next_fit_inv_def all_bins_def)
  moreover have "next_fit exact_sub box_widths = all_bins ?s"
    by (simp add: next_fit_def all_bins_def Let_def)
  moreover have "all_bins ?s \<noteq> []"
    by (simp add: all_bins_def)
  ultimately show ?thesis
    using assms by (simp add: is_valid_packing_packed)
qed

lemma first_fit_packed:
  assumes "\<forall>w \<in> set box_widths. w \<le> 1"
  shows "first_fit exact_sub box_widths \<noteq> [] \<and>
         packed_upto (length box_widths) (length box_widths) (first_fit exact_sub box_widths) \<and>
         (\<forall>b \<in> set (first_fit exact_sub box_widths). sum_list (masked box_widths b) \<le> 1)"
proof -
  let ?s = "fold (first_fit_step exact_sub box_widths) [0..<length box_widths]
      (first_fit_init box_widths)"
  have inv: "first_fit_inv box_widths (length box_widths) ?s"
    using assms by (intro first_fit_inv_fold) auto
  then have packed: "packed_upto (length box_widths) (length box_widths) (ff_bins ?s)"
    and sums: "\<forall>j < length (ff_bins ?s). sum_list (masked box_widths (ff_bins ?s ! j)) \<le> 1"
    unfolding first_fit_inv_def by blast+
  have "ff_bins ?s \<noteq> []"
  proof
    assume "ff_bins ?s = []"
    then have "\<forall>i < length box_widths. (0::int) = 1"
      using packed by (simp add: packed_upto_def)
    then have "box_widths = []" by (cases box_widths) auto
    then show False
      using \<open>ff_bins ?s = []\<close> by (simp add: first_fit_init_def)
  qed
  moreover have "\<forall>b \<in> set (ff_bins ?s). sum_list (masked box_widths b) \<le> 1"
    using sums by (auto simp: in_set_conv_nth)
  ultimately show ?thesis
    using packed by (simp add: first_fit_def)
qed

lemma first_fit_feasible:
  assumes "\<forall>w \<in> set box_widths. 0 \<le> w \<and> w \<le> 1"
  shows "is_valid_packing exact_sum (map Number box_widths) (first_fit exact_sub box_widths) =
           Inr True"
  using first_fit_packed [of box_widths] assms
  by (intro is_valid_packing_packed) auto

lemma undo_sort_of_bound:
  assumes "is_permutation n indices" and "i < n"
  shows "undo_sort_of indices ! i < n"
proof -
  from is_permutation_position [OF assms] obtain k where "k < n" "indices ! k = i"
    by blast
  with undo_sort_of_nth [OF assms(1) this(1)] show ?thesis by simp
qed

lemma take_indices_undo_sort_nth:
  assumes "is_permutation n indices" and "i < n"
  shows "take_indices b (undo_sort_of indices) ! i = b ! (undo_sort_of indices ! i)"
  using assms by (simp add: take_indices_def undo_sort_of_length is_permutation_length)

lemma packed_upto_unsort:
  assumes "is_permutation n indices" and "packed_upto n n bs"
  shows "packed_upto n n (map (\<lambda>b. take_indices b (undo_sort_of indices)) bs)"
proof -
  let ?undo = "undo_sort_of indices"
  have len: "length ?undo = n"
    using assms(1) by (simp add: undo_sort_of_length is_permutation_length)
  have "is_membership_vector n (take_indices b ?undo)" if "b \<in> set bs" for b
  proof -
    have b: "length b = n" "\<forall>i < n. b ! i = 0 \<or> b ! i = 1"
      using assms(2) that by (auto simp: packed_upto_def is_membership_vector_def list_all_length)
    have "take_indices b ?undo ! i = 0 \<or> take_indices b ?undo ! i = 1" if "i < n" for i
      using b(2) undo_sort_of_bound [OF assms(1) that]
      by (simp add: take_indices_undo_sort_nth [OF assms(1) that])
    then show ?thesis
      using len by (simp add: is_membership_vector_def list_all_length take_indices_def)
  qed
  moreover have "sum_list (map (\<lambda>b. b ! i) (map (\<lambda>b. take_indices b ?undo) bs)) = 1"
    if "i < n" for i
  proof -
    have "sum_list (map (\<lambda>b. b ! i) (map (\<lambda>b. take_indices b ?undo) bs)) =
        sum_list (map (\<lambda>b. b ! (?undo ! i)) bs)"
      by (simp add: comp_def take_indices_undo_sort_nth [OF assms(1) that])
    also have "\<dots> = 1"
      using assms(2) undo_sort_of_bound [OF assms(1) that] by (simp add: packed_upto_def)
    finally show ?thesis .
  qed
  ultimately show ?thesis
    by (simp add: packed_upto_def)
qed

lemma sum_list_masked_unsort:
  fixes box_widths :: "real list"
  assumes "is_permutation (length box_widths) indices" and "length b = length box_widths"
  shows "sum_list (masked box_widths (take_indices b (undo_sort_of indices))) =
         sum_list (masked (take_indices box_widths indices) b)"
proof -
  let ?n = "length box_widths"
  let ?undo = "undo_sort_of indices"
  let ?sorted = "take_indices box_widths indices"
  let ?g = "\<lambda>i. if b ! (?undo ! i) = 1 then box_widths ! i else 0"
  have len: "length indices = ?n"
    using assms(1) by (rule is_permutation_length)
  have len_undo: "length (take_indices b ?undo) = ?n"
    using len by (simp add: take_indices_def undo_sort_of_length)
  have len_sorted: "length ?sorted = ?n"
    using len by (simp add: take_indices_def)
  have bij: "bij_betw ((!) indices) {..<?n} {..<?n}"
  proof (rule bij_betw_nth)
    show "distinct indices"
      using assms(1) by (simp add: is_permutation_def)
    show "{..<?n} = {..<length indices}"
      by (simp only: len)
    show "{..<?n} = set indices"
      using assms(1) by (simp add: is_permutation_def atLeast0LessThan)
  qed
  have unsorted: "(if take_indices b ?undo ! i = 1 then box_widths ! i else 0) = ?g i"
    if "i \<in> {..<?n}" for i
    using that by (simp add: take_indices_undo_sort_nth [OF assms(1)])
  have sorted: "?g (indices ! k) = (if b ! k = 1 then ?sorted ! k else 0)"
    if "k \<in> {..<?n}" for k
  proof -
    have "k < ?n" using that by simp
    then have "?undo ! (indices ! k) = k" "?sorted ! k = box_widths ! (indices ! k)"
      using undo_sort_of_nth [OF assms(1)] len by (simp_all add: take_indices_def)
    then show ?thesis by (simp only:)
  qed
  have "sum_list (masked box_widths (take_indices b ?undo)) =
      (\<Sum>i < ?n. if take_indices b ?undo ! i = 1 then box_widths ! i else 0)"
    using len_undo by (rule sum_list_masked)
  also have "\<dots> = (\<Sum>i < ?n. ?g i)"
    using unsorted by (rule sum.cong [OF refl])
  also have "\<dots> = (\<Sum>k < ?n. ?g (indices ! k))"
    by (rule sum.reindex_bij_betw [OF bij, symmetric])
  also have "\<dots> = (\<Sum>k < ?n. if b ! k = 1 then ?sorted ! k else 0)"
    using sorted by (rule sum.cong [OF refl])
  also have "\<dots> = (\<Sum>k < length ?sorted. if b ! k = 1 then ?sorted ! k else 0)"
    by (simp only: len_sorted)
  also have "\<dots> = sum_list (masked ?sorted b)"
    using assms(2) len_sorted by (intro sum_list_masked [symmetric]) simp
  finally show ?thesis .
qed

lemma first_fit_decreasing_feasible:
  assumes "\<forall>w \<in> set box_widths. 0 \<le> w \<and> w \<le> 1"
    and "is_permutation (length box_widths) indices"
  shows "is_valid_packing exact_sum (map Number box_widths)
           (first_fit_decreasing_with exact_sub indices box_widths) = Inr True"
proof -
  let ?sorted = "take_indices box_widths indices"
  let ?bs = "first_fit exact_sub ?sorted"
  have len: "length ?sorted = length box_widths"
    using is_permutation_length [OF assms(2)] by (simp add: take_indices_def)
  have "w \<le> 1" if "w \<in> set ?sorted" for w
  proof -
    from that obtain i where "i \<in> set indices" "w = box_widths ! i"
      by (auto simp: take_indices_def)
    then have "w \<in> set box_widths"
      using assms(2) by (simp add: is_permutation_def)
    then show ?thesis
      using assms(1) by simp
  qed
  then have "\<forall>w \<in> set ?sorted. w \<le> 1" by blast
  from first_fit_packed [OF this]
  have ne: "?bs \<noteq> []" and packed: "packed_upto (length box_widths) (length box_widths) ?bs"
    and sums: "\<forall>b \<in> set ?bs. sum_list (masked ?sorted b) \<le> 1"
    using len by simp_all
  have out: "first_fit_decreasing_with exact_sub indices box_widths =
      map (\<lambda>b. take_indices b (undo_sort_of indices)) ?bs"
    by (simp add: first_fit_decreasing_with_def)
  have "sum_list (masked box_widths (take_indices b (undo_sort_of indices))) \<le> 1"
    if "b \<in> set ?bs" for b
  proof -
    have "length b = length box_widths"
      using packed that by (simp add: packed_upto_def is_membership_vector_def)
    from sum_list_masked_unsort [OF assms(2) this] sums that show ?thesis
      by simp
  qed
  then show ?thesis
    unfolding out using assms(1) ne packed_upto_unsort [OF assms(2) packed]
    by (intro is_valid_packing_packed) auto
qed

text \<open>
  With exact subtraction and exact sums, the validator certifies the packing of each
  of the three packers, for sizes in \<open>[0, 1]\<close> and every result of \<open>np.argsort\<close>.
\<close>

lemma packers_feasible_exact:
  assumes "\<forall>w \<in> set box_widths. 0 \<le> w \<and> w \<le> 1"
    and "is_argsort (map uminus box_widths) indices"
  shows "is_valid_packing exact_sum (map Number box_widths) (next_fit exact_sub box_widths) =
           Inr True"
    and "is_valid_packing exact_sum (map Number box_widths) (first_fit exact_sub box_widths) =
           Inr True"
    and "is_valid_packing exact_sum (map Number box_widths)
           (first_fit_decreasing_with exact_sub indices box_widths) = Inr True"
proof -
  have "is_permutation (length box_widths) indices"
    using is_argsort_permutation [OF assms(2)] by simp
  then show "is_valid_packing exact_sum (map Number box_widths)
      (first_fit_decreasing_with exact_sub indices box_widths) = Inr True"
    using assms(1) by (intro first_fit_decreasing_feasible)
qed (use assms(1) in \<open>simp_all add: next_fit_feasible first_fit_feasible\<close>)

section \<open>FIRST-FIT, item by item\<close>

lemma sum_list_update_int:
  "j < length xs \<Longrightarrow> sum_list (xs[j := v]) = sum_list xs - xs ! j + (v :: int)"
proof (induction xs arbitrary: j)
  case Nil
  then show ?case by simp
next
  case (Cons x xs)
  then show ?case by (cases j) auto
qed

lemma only_one:
  assumes "\<forall>x \<in> set xs. x = 0 \<or> x = (1::int)" and "sum_list xs = 1"
    and "j < length xs" and "xs ! j = 1" and "j' < length xs" and "j' \<noteq> j"
  shows "xs ! j' = 0"
proof -
  have "sum_list (xs[j := 0]) = 0"
    using assms(2,3,4) by (simp add: sum_list_update_int)
  moreover have "0 \<le> x" if "x \<in> set (xs[j := 0])" for x
  proof -
    from that have "x = 0 \<or> x \<in> set xs"
      using set_update_subset_insert [of xs j 0] by auto
    then show ?thesis using assms(1) by auto
  qed
  ultimately have "\<forall>x \<in> set (xs[j := 0]). x = 0"
    by (simp only: sum_list_nonneg_eq_0_iff)
  moreover have "xs[j := 0] ! j' \<in> set (xs[j := 0])"
    using assms(5) by simp
  ultimately have "xs[j := 0] ! j' = 0" by blast
  then show ?thesis
    using assms(6) by simp
qed

lemma packed_upto_only_one:
  assumes "packed_upto n n bs" and "i < n" and "j < length bs" and "bs ! j ! i = 1"
    and "j' < length bs" and "j' \<noteq> j"
  shows "bs ! j' ! i = 0"
proof -
  have "\<forall>x \<in> set (map (\<lambda>b. b ! i) bs). x = 0 \<or> x = 1"
    using assms(1,2) by (auto simp: packed_upto_def is_membership_vector_def list_all_length)
  moreover have "sum_list (map (\<lambda>b. b ! i) bs) = 1"
    using assms(1,2) by (simp add: packed_upto_def)
  ultimately have "map (\<lambda>b. b ! i) bs ! j' = 0"
    using assms(3-6) by (intro only_one [where j = j]) simp_all
  then show ?thesis
    using assms(5) by simp
qed

subsection \<open>first fit\<close>

lemma first_fit_loop_0: "first_fit_loop sub box_widths 0 = first_fit_init box_widths"
  by (simp add: first_fit_loop_def)

lemma first_fit_loop_Suc:
  "first_fit_loop sub box_widths (Suc k) =
     first_fit_step sub box_widths k (first_fit_loop sub box_widths k)"
  by (simp add: first_fit_loop_def)

lemma first_fit_loop_end:
  "first_fit sub box_widths = ff_bins (first_fit_loop sub box_widths (length box_widths))"
  by (simp add: first_fit_def first_fit_loop_def)

lemma first_fit_step_Some:
  assumes "scan (box_widths ! i) (ff_available_space s) (length (ff_bins s)) 0 = Some j"
  shows "first_fit_step sub box_widths i s =
           \<lparr>ff_bins = (ff_bins s)[j := (ff_bins s ! j)[i := 1]],
            ff_available_space =
              (ff_available_space s)[j := sub (ff_available_space s ! j) (box_widths ! i)]\<rparr>"
  using assms by (simp add: first_fit_step_def)

lemma first_fit_step_None:
  assumes "scan (box_widths ! i) (ff_available_space s) (length (ff_bins s)) 0 = None"
  shows "first_fit_step sub box_widths i s =
           \<lparr>ff_bins = ff_bins s @ [(zeros (length box_widths))[i := 1]],
            ff_available_space = ff_available_space s @ [sub 1 (box_widths ! i)]\<rparr>"
  using assms by (simp add: first_fit_step_def)

lemma first_fit_loop_packed:
  assumes "k \<le> length box_widths"
  shows "packed_upto (length box_widths) k (ff_bins (first_fit_loop sub box_widths k))"
  using assms
proof (induction k)
  case 0
  then show ?case
    by (simp add: first_fit_loop_0 first_fit_init_def packed_upto_init)
next
  case (Suc k)
  let ?s = "first_fit_loop sub box_widths k"
  have IH: "packed_upto (length box_widths) k (ff_bins ?s)" and k: "k < length box_widths"
    using Suc by simp_all
  show ?case
  proof (cases "scan (box_widths ! k) (ff_available_space ?s) (length (ff_bins ?s)) 0")
    case None
    then show ?thesis
      using packed_upto_open [OF IH k]
      by (simp add: first_fit_loop_Suc first_fit_step_None)
  next
    case (Some j)
    then have "j < length (ff_bins ?s)"
      by (simp add: scan_Some)
    with Some show ?thesis
      using packed_upto_place [OF IH k]
      by (simp add: first_fit_loop_Suc first_fit_step_Some)
  qed
qed

lemma first_fit_step_keeps:
  assumes "j < length (ff_bins s)" and "ff_bins s ! j ! c = 1"
  shows "j < length (ff_bins (first_fit_step sub box_widths i s)) \<and>
         ff_bins (first_fit_step sub box_widths i s) ! j ! c = 1"
proof (cases "scan (box_widths ! i) (ff_available_space s) (length (ff_bins s)) 0")
  case None
  then show ?thesis
    using assms by (simp add: first_fit_step_None nth_append)
next
  case (Some j0)
  have "(ff_bins s ! j)[i := 1] ! c = 1"
    using assms(2) by (metis nth_list_update_eq nth_list_update_neq list_update_beyond not_less)
  then show ?thesis
    using assms Some by (cases "j = j0") (simp_all add: first_fit_step_Some)
qed

lemma first_fit_loop_keeps:
  assumes "j < length (ff_bins (first_fit_loop sub box_widths k))"
    and "ff_bins (first_fit_loop sub box_widths k) ! j ! c = 1"
    and "k \<le> k'"
  shows "j < length (ff_bins (first_fit_loop sub box_widths k')) \<and>
         ff_bins (first_fit_loop sub box_widths k') ! j ! c = 1"
  using assms(3)
proof (induction k' rule: dec_induct)
  case base
  then show ?case using assms(1,2) by simp
next
  case (step m)
  then show ?case
    using first_fit_step_keeps [of j "first_fit_loop sub box_widths m" c sub box_widths m]
    by (simp add: first_fit_loop_Suc)
qed

lemma first_fit_item_in_bin:
  assumes "i < length box_widths"
    and "j < length (ff_bins (first_fit_loop sub box_widths (Suc i)))"
    and "ff_bins (first_fit_loop sub box_widths (Suc i)) ! j ! i = 1"
  shows "j < length (first_fit sub box_widths) \<and>
         first_fit sub box_widths ! j ! i = 1 \<and>
         (\<forall>j' < length (first_fit sub box_widths). j' \<noteq> j \<longrightarrow>
            first_fit sub box_widths ! j' ! i = 0)"
proof -
  have final: "j < length (first_fit sub box_widths) \<and> first_fit sub box_widths ! j ! i = 1"
    using first_fit_loop_keeps [OF assms(2,3), of "length box_widths"] assms(1)
    by (simp add: first_fit_loop_end)
  have "packed_upto (length box_widths) (length box_widths) (first_fit sub box_widths)"
    using first_fit_loop_packed [of "length box_widths" box_widths sub]
    by (simp add: first_fit_loop_end)
  from packed_upto_only_one [OF this assms(1)] final show ?thesis
    by blast
qed

lemma first_fit_step_length:
  "length (ff_bins s) \<le> length (ff_bins (first_fit_step sub box_widths i s))"
  by (cases "scan (box_widths ! i) (ff_available_space s) (length (ff_bins s)) 0")
    (simp_all add: first_fit_step_Some first_fit_step_None)

lemma first_fit_loop_length:
  assumes "k \<le> k'"
  shows "length (ff_bins (first_fit_loop sub box_widths k)) \<le>
         length (ff_bins (first_fit_loop sub box_widths k'))"
  using assms
proof (induction k' rule: dec_induct)
  case base
  then show ?case by simp
next
  case (step m)
  then show ?case
    using first_fit_step_length [of "first_fit_loop sub box_widths m" sub box_widths m]
    by (simp add: first_fit_loop_Suc)
qed

text \<open>
  Claim C4. Let \<open>s\<close> be the state of \<open>first_fit\<close> when its loop reaches item \<open>i\<close>, of
  size \<open>box_width\<close>. If bin \<open>j\<close> is the first open bin whose available space is strictly
  greater than \<open>box_width\<close>, the loop puts the item into bin \<open>j\<close>, whose space becomes
  \<open>sub\<close> of its space and \<open>box_width\<close>, and in the packing that \<open>first_fit\<close> returns
  item \<open>i\<close> is in bin \<open>j\<close> and in no other bin. If no open bin has strictly more space
  than \<open>box_width\<close>, the loop appends a new bin holding just item \<open>i\<close>, with available
  space \<open>sub 1 box_width\<close>, and in the packing returned item \<open>i\<close> is in that bin and in
  no other. An open bin whose space equals \<open>box_width\<close> does not hold item \<open>i\<close> in the
  packing returned. This holds for every subtraction \<open>sub\<close>; the space of the new bin,
  \<open>sub 1 box_width\<close>, is \<open>1 - box_width\<close> when the subtraction is exact, and the
  floating-point number nearest to \<open>1 - box_width\<close> when it is that of the code.
\<close>

theorem first_fit_places_item:
  assumes "i < length box_widths"
    and "s = first_fit_loop sub box_widths i"
    and "box_width = box_widths ! i"
  shows "(j < length (ff_bins s) \<and> box_width < ff_available_space s ! j \<and>
          (\<forall>k < j. \<not> box_width < ff_available_space s ! k) \<longrightarrow>
            first_fit_loop sub box_widths (Suc i) =
              \<lparr>ff_bins = (ff_bins s)[j := (ff_bins s ! j)[i := 1]],
               ff_available_space =
                 (ff_available_space s)[j := sub (ff_available_space s ! j) box_width]\<rparr> \<and>
            first_fit sub box_widths ! j ! i = 1 \<and>
            (\<forall>j' < length (first_fit sub box_widths). j' \<noteq> j \<longrightarrow>
               first_fit sub box_widths ! j' ! i = 0)) \<and>
         ((\<forall>k < length (ff_bins s). \<not> box_width < ff_available_space s ! k) \<longrightarrow>
            first_fit_loop sub box_widths (Suc i) =
              \<lparr>ff_bins = ff_bins s @ [(zeros (length box_widths))[i := 1]],
               ff_available_space = ff_available_space s @ [sub 1 box_width]\<rparr> \<and>
            first_fit sub box_widths ! length (ff_bins s) ! i = 1 \<and>
            (\<forall>j' < length (first_fit sub box_widths). j' \<noteq> length (ff_bins s) \<longrightarrow>
               first_fit sub box_widths ! j' ! i = 0)) \<and>
         (j < length (ff_bins s) \<and> ff_available_space s ! j = box_width \<longrightarrow>
            first_fit sub box_widths ! j ! i = 0) \<and>
         exact_sub 1 box_width = 1 - box_width \<and>
         binary64_sub 1 box_width = binary64 (1 - box_width)"
proof -
  let ?out = "first_fit sub box_widths"
  let ?scan = "scan box_width (ff_available_space s) (length (ff_bins s)) 0"
  have vectors: "\<forall>b \<in> set (ff_bins s). length b = length box_widths"
    using first_fit_loop_packed [of i box_widths sub] assms(1,2)
    by (simp add: packed_upto_def is_membership_vector_def)
  have placed: "first_fit_loop sub box_widths (Suc i) =
        \<lparr>ff_bins = (ff_bins s)[p := (ff_bins s ! p)[i := 1]],
         ff_available_space =
           (ff_available_space s)[p := sub (ff_available_space s ! p) box_width]\<rparr> \<and>
      ?out ! p ! i = 1 \<and> (\<forall>j' < length ?out. j' \<noteq> p \<longrightarrow> ?out ! j' ! i = 0)"
    if "?scan = Some p" for p
  proof -
    have p: "p < length (ff_bins s)"
      using that by (simp add: scan_Some)
    have after: "first_fit_loop sub box_widths (Suc i) =
        \<lparr>ff_bins = (ff_bins s)[p := (ff_bins s ! p)[i := 1]],
         ff_available_space =
           (ff_available_space s)[p := sub (ff_available_space s ! p) box_width]\<rparr>"
      using that assms(2,3) by (simp add: first_fit_loop_Suc first_fit_step_Some)
    have "ff_bins (first_fit_loop sub box_widths (Suc i)) ! p ! i = 1"
      using p vectors assms(1) by (simp add: after)
    moreover have "p < length (ff_bins (first_fit_loop sub box_widths (Suc i)))"
      using p by (simp add: after)
    ultimately show ?thesis
      using first_fit_item_in_bin [OF assms(1), of p sub] after by simp
  qed
  have opened: "first_fit_loop sub box_widths (Suc i) =
        \<lparr>ff_bins = ff_bins s @ [(zeros (length box_widths))[i := 1]],
         ff_available_space = ff_available_space s @ [sub 1 box_width]\<rparr> \<and>
      ?out ! length (ff_bins s) ! i = 1 \<and>
      (\<forall>j' < length ?out. j' \<noteq> length (ff_bins s) \<longrightarrow> ?out ! j' ! i = 0)"
    if "?scan = None"
  proof -
    have after: "first_fit_loop sub box_widths (Suc i) =
        \<lparr>ff_bins = ff_bins s @ [(zeros (length box_widths))[i := 1]],
         ff_available_space = ff_available_space s @ [sub 1 box_width]\<rparr>"
      using that assms(2,3) by (simp add: first_fit_loop_Suc first_fit_step_None)
    have "ff_bins (first_fit_loop sub box_widths (Suc i)) ! length (ff_bins s) ! i = 1"
      using assms(1) by (simp add: after zeros_def)
    moreover have "length (ff_bins s) < length (ff_bins (first_fit_loop sub box_widths (Suc i)))"
      by (simp add: after)
    ultimately show ?thesis
      using first_fit_item_in_bin [OF assms(1), of "length (ff_bins s)" sub] after by simp
  qed
  have 1: "first_fit_loop sub box_widths (Suc i) =
        \<lparr>ff_bins = (ff_bins s)[j := (ff_bins s ! j)[i := 1]],
         ff_available_space =
           (ff_available_space s)[j := sub (ff_available_space s ! j) box_width]\<rparr> \<and>
      ?out ! j ! i = 1 \<and> (\<forall>j' < length ?out. j' \<noteq> j \<longrightarrow> ?out ! j' ! i = 0)"
    if "j < length (ff_bins s) \<and> box_width < ff_available_space s ! j \<and>
        (\<forall>k < j. \<not> box_width < ff_available_space s ! k)"
  proof -
    have "?scan = Some j"
      using that by (simp add: scan_Some)
    then show ?thesis by (rule placed)
  qed
  have 2: "first_fit_loop sub box_widths (Suc i) =
        \<lparr>ff_bins = ff_bins s @ [(zeros (length box_widths))[i := 1]],
         ff_available_space = ff_available_space s @ [sub 1 box_width]\<rparr> \<and>
      ?out ! length (ff_bins s) ! i = 1 \<and>
      (\<forall>j' < length ?out. j' \<noteq> length (ff_bins s) \<longrightarrow> ?out ! j' ! i = 0)"
    if "\<forall>k < length (ff_bins s). \<not> box_width < ff_available_space s ! k"
  proof -
    have "?scan = None"
      using that by (simp add: scan_None)
    then show ?thesis by (rule opened)
  qed
  have 3: "?out ! j ! i = 0"
    if "j < length (ff_bins s) \<and> ff_available_space s ! j = box_width"
  proof -
    have j: "j < length ?out"
      using that first_fit_loop_length [of i "length box_widths" sub box_widths] assms(1,2)
      by (simp add: first_fit_loop_end)
    show ?thesis
    proof (cases ?scan)
      case None
      with opened that j show ?thesis by auto
    next
      case (Some p)
      then have "box_width < ff_available_space s ! p"
        by (simp add: scan_Some)
      with that have "p \<noteq> j" by auto
      with placed [OF Some] j show ?thesis by auto
    qed
  qed
  from 1 2 3 show ?thesis
    by (simp add: exact_sub_def binary64_sub_def)
qed

text \<open>
  The sizes \<open>1/2, 1/2\<close>: the second item is as large as the space left in the first bin,
  and goes into a new bin, with space \<open>1/2\<close>. The sizes \<open>1/4, 1/2\<close>: the second item is
  smaller than the space left in the first bin, and goes into it.
\<close>

theorem first_fit_places_item_witness:
  "first_fit_loop exact_sub [1 / 2, 1 / 2] (Suc 1) =
     \<lparr>ff_bins = [[1, 0], [0, 1]], ff_available_space = [1 / 2, 1 / 2]\<rparr> \<and>
   first_fit exact_sub [1 / 2, 1 / 2] ! 1 ! 1 = 1 \<and>
   first_fit exact_sub [1 / 2, 1 / 2] ! 0 ! 1 = 0 \<and>
   first_fit_loop exact_sub [1 / 4, 1 / 2] (Suc 1) =
     \<lparr>ff_bins = [[1, 1]], ff_available_space = [1 / 4]\<rparr> \<and>
   first_fit exact_sub [1 / 4, 1 / 2] ! 0 ! 1 = 1"
proof -
  have tie: "first_fit_loop exact_sub [1 / 2, 1 / 2] 1 =
      \<lparr>ff_bins = [[1, 0]], ff_available_space = [1 / 2]\<rparr>"
    by (simp add: eval_loops eval_packers exact_sub_def)
  have fits: "first_fit_loop exact_sub [1 / 4, 1 / 2] 1 =
      \<lparr>ff_bins = [[1, 0]], ff_available_space = [3 / 4]\<rparr>"
    by (simp add: eval_loops eval_packers exact_sub_def)
  have second: "1 < length [1 / 2, 1 / 2 :: real]" "1 < length [1 / 4, 1 / 2 :: real]"
    by simp_all
  from first_fit_places_item [OF second(1) tie [symmetric] refl, where j = 0]
    first_fit_places_item [OF second(2) fits [symmetric] refl, where j = 0]
  show ?thesis
    by (simp add: zeros_def exact_sub_def)
qed

text \<open>
  The space of a new bin is not always \<open>1 - size\<close>. The sizes \<open>3/4\<close> and
  \<open>1/4 + 2\<^sup>-\<^sup>5\<^sup>4\<close> are floating-point numbers. With the subtraction of the code, the first
  item leaves the space \<open>1/4\<close> in the first bin, which the second item does not fit, and
  the new bin that the second item opens has the available space \<open>3/4\<close>, the
  floating-point number nearest to \<open>3/4 - 2\<^sup>-\<^sup>5\<^sup>4\<close>, whereas \<open>1 - size\<close> is
  \<open>3/4 - 2\<^sup>-\<^sup>5\<^sup>4\<close>.
\<close>

theorem first_fit_new_bin_rounded:
  "map binary64 [3 / 4, 1 / 4 + 1 / 2 ^ 54] = [3 / 4, 1 / 4 + 1 / 2 ^ 54] \<and>
   first_fit_loop binary64_sub [3 / 4, 1 / 4 + 1 / 2 ^ 54] 1 =
     \<lparr>ff_bins = [[1, 0]], ff_available_space = [1 / 4]\<rparr> \<and>
   \<not> [3 / 4, 1 / 4 + 1 / 2 ^ 54] ! 1 < (1 / 4 :: real) \<and>
   first_fit_loop binary64_sub [3 / 4, 1 / 4 + 1 / 2 ^ 54] (Suc 1) =
     \<lparr>ff_bins = [[1, 0], [0, 1]], ff_available_space = [1 / 4, 3 / 4]\<rparr> \<and>
   (3 / 4 :: real) \<noteq> 1 - [3 / 4, 1 / 4 + 1 / 2 ^ 54] ! 1"
  by (simp add: eval_loops eval_packers eval_binary64)

section \<open>NEXT-FIT, item by item\<close>

lemma next_fit_loop_0: "next_fit_loop sub box_widths 0 = next_fit_init box_widths"
  by (simp add: next_fit_loop_def)

lemma next_fit_loop_Suc:
  "next_fit_loop sub box_widths (Suc k) =
     next_fit_step sub box_widths k (next_fit_loop sub box_widths k)"
  by (simp add: next_fit_loop_def)

lemma next_fit_loop_end:
  "next_fit sub box_widths = all_bins (next_fit_loop sub box_widths (length box_widths))"
  by (simp add: next_fit_def next_fit_loop_def all_bins_def Let_def)

lemma next_fit_step_opens:
  assumes "box_widths ! i > nf_available_space s"
  shows "next_fit_step sub box_widths i s =
           \<lparr>nf_bins = nf_bins s @ [nf_current_bin s],
            nf_current_bin = (zeros (length box_widths))[i := 1],
            nf_available_space = sub 1 (box_widths ! i)\<rparr>"
  using assms by (simp add: next_fit_step_def)

lemma next_fit_step_stays:
  assumes "box_widths ! i \<le> nf_available_space s"
  shows "next_fit_step sub box_widths i s =
           \<lparr>nf_bins = nf_bins s,
            nf_current_bin = (nf_current_bin s)[i := 1],
            nf_available_space = sub (nf_available_space s) (box_widths ! i)\<rparr>"
  using assms by (simp add: next_fit_step_def)

lemma all_bins_opens:
  assumes "box_widths ! i > nf_available_space s"
  shows "all_bins (next_fit_step sub box_widths i s) =
           all_bins s @ [(zeros (length box_widths))[i := 1]]"
  using assms by (simp add: next_fit_step_opens all_bins_def)

lemma all_bins_stays:
  assumes "box_widths ! i \<le> nf_available_space s"
  shows "all_bins (next_fit_step sub box_widths i s) =
           (all_bins s)[length (nf_bins s) := (all_bins s ! length (nf_bins s))[i := 1]]"
  using assms by (simp add: next_fit_step_stays all_bins_def)

lemma next_fit_loop_packed:
  assumes "k \<le> length box_widths"
  shows "packed_upto (length box_widths) k (all_bins (next_fit_loop sub box_widths k))"
  using assms
proof (induction k)
  case 0
  then show ?case
    by (simp add: next_fit_loop_0 next_fit_init_def all_bins_def packed_upto_init)
next
  case (Suc k)
  let ?s = "next_fit_loop sub box_widths k"
  have IH: "packed_upto (length box_widths) k (all_bins ?s)" and k: "k < length box_widths"
    using Suc by simp_all
  show ?case
  proof (cases "box_widths ! k > nf_available_space ?s")
    case True
    then show ?thesis
      using packed_upto_open [OF IH k] by (simp add: next_fit_loop_Suc all_bins_opens)
  next
    case False
    have "length (nf_bins ?s) < length (all_bins ?s)"
      by (simp add: all_bins_def)
    from packed_upto_place [OF IH k this] False show ?thesis
      by (simp add: next_fit_loop_Suc all_bins_stays)
  qed
qed

lemma next_fit_step_keeps:
  assumes "j < length (all_bins s)" and "all_bins s ! j ! c = 1"
  shows "j < length (all_bins (next_fit_step sub box_widths i s)) \<and>
         all_bins (next_fit_step sub box_widths i s) ! j ! c = 1"
proof (cases "box_widths ! i > nf_available_space s")
  case True
  then show ?thesis
    using assms by (simp add: all_bins_opens nth_append)
next
  case False
  have "(all_bins s ! j)[i := 1] ! c = 1"
    using assms(2) by (metis nth_list_update_eq nth_list_update_neq list_update_beyond not_less)
  then show ?thesis
    using assms False by (cases "j = length (nf_bins s)") (simp_all add: all_bins_stays)
qed

lemma next_fit_loop_keeps:
  assumes "j < length (all_bins (next_fit_loop sub box_widths k))"
    and "all_bins (next_fit_loop sub box_widths k) ! j ! c = 1"
    and "k \<le> k'"
  shows "j < length (all_bins (next_fit_loop sub box_widths k')) \<and>
         all_bins (next_fit_loop sub box_widths k') ! j ! c = 1"
  using assms(3)
proof (induction k' rule: dec_induct)
  case base
  then show ?case using assms(1,2) by simp
next
  case (step m)
  then show ?case
    using next_fit_step_keeps [of j "next_fit_loop sub box_widths m" c sub box_widths m]
    by (simp add: next_fit_loop_Suc)
qed

lemma next_fit_item_in_bin:
  assumes "i < length box_widths"
    and "j < length (all_bins (next_fit_loop sub box_widths (Suc i)))"
    and "all_bins (next_fit_loop sub box_widths (Suc i)) ! j ! i = 1"
  shows "j < length (next_fit sub box_widths) \<and>
         next_fit sub box_widths ! j ! i = 1 \<and>
         (\<forall>j' < length (next_fit sub box_widths). j' \<noteq> j \<longrightarrow>
            next_fit sub box_widths ! j' ! i = 0)"
proof -
  have final: "j < length (next_fit sub box_widths) \<and> next_fit sub box_widths ! j ! i = 1"
    using next_fit_loop_keeps [OF assms(2,3), of "length box_widths"] assms(1)
    by (simp add: next_fit_loop_end)
  have "packed_upto (length box_widths) (length box_widths) (next_fit sub box_widths)"
    using next_fit_loop_packed [of "length box_widths" box_widths sub]
    by (simp add: next_fit_loop_end)
  from packed_upto_only_one [OF this assms(1)] final show ?thesis
    by blast
qed

lemma next_fit_loop_count:
  "length (all_bins (next_fit_loop sub box_widths k)) =
     1 + length (filter (\<lambda>i. box_widths ! i > nf_available_space (next_fit_loop sub box_widths i))
                  [0..<k])"
proof (induction k)
  case 0
  then show ?case
    by (simp add: next_fit_loop_0 next_fit_init_def all_bins_def)
next
  case (Suc k)
  show ?case
  proof (cases "box_widths ! k > nf_available_space (next_fit_loop sub box_widths k)")
    case True
    then show ?thesis
      using Suc by (simp add: next_fit_loop_Suc all_bins_opens)
  next
    case False
    then have "box_widths ! k \<le> nf_available_space (next_fit_loop sub box_widths k)"
      by simp
    from all_bins_stays [OF this] False Suc show ?thesis
      by (simp add: next_fit_loop_Suc)
  qed
qed

text \<open>
  Claim C5. Let \<open>s\<close> be the state of \<open>next_fit\<close> when its loop reaches item \<open>i\<close>. If the
  size of the item is strictly greater than the available space of the current bin, the loop
  closes the current bin and opens a new one holding just item \<open>i\<close>, and in the packing
  that \<open>next_fit\<close> returns item \<open>i\<close> is in that new bin and in no other. If the size is
  less than or equal to the available space, in particular equal to it, the loop opens no bin
  and puts the item into the current bin, and in the packing returned item \<open>i\<close> is in that
  bin and in no other. So the packing returned has one bin, the initial one, and one more for
  each item whose size was strictly greater than the space available when the loop reached it.
\<close>

theorem next_fit_opens_bin:
  assumes "i < length box_widths"
    and "s = next_fit_loop sub box_widths i"
  shows "(box_widths ! i > nf_available_space s \<longrightarrow>
            next_fit_loop sub box_widths (Suc i) =
              \<lparr>nf_bins = nf_bins s @ [nf_current_bin s],
               nf_current_bin = (zeros (length box_widths))[i := 1],
               nf_available_space = sub 1 (box_widths ! i)\<rparr> \<and>
            next_fit sub box_widths ! (length (nf_bins s) + 1) ! i = 1 \<and>
            (\<forall>j' < length (next_fit sub box_widths). j' \<noteq> length (nf_bins s) + 1 \<longrightarrow>
               next_fit sub box_widths ! j' ! i = 0)) \<and>
         (box_widths ! i \<le> nf_available_space s \<longrightarrow>
            next_fit_loop sub box_widths (Suc i) =
              \<lparr>nf_bins = nf_bins s,
               nf_current_bin = (nf_current_bin s)[i := 1],
               nf_available_space = sub (nf_available_space s) (box_widths ! i)\<rparr> \<and>
            next_fit sub box_widths ! length (nf_bins s) ! i = 1 \<and>
            (\<forall>j' < length (next_fit sub box_widths). j' \<noteq> length (nf_bins s) \<longrightarrow>
               next_fit sub box_widths ! j' ! i = 0)) \<and>
         length (next_fit sub box_widths) =
           1 + length (filter
                 (\<lambda>k. box_widths ! k > nf_available_space (next_fit_loop sub box_widths k))
                 [0..<length box_widths])"
proof -
  let ?out = "next_fit sub box_widths"
  let ?after = "next_fit_loop sub box_widths (Suc i)"
  have current: "length (nf_current_bin s) = length box_widths"
    using next_fit_loop_packed [of i box_widths sub] assms
    by (simp add: packed_upto_def is_membership_vector_def all_bins_def)
  have 1: "?after =
        \<lparr>nf_bins = nf_bins s @ [nf_current_bin s],
         nf_current_bin = (zeros (length box_widths))[i := 1],
         nf_available_space = sub 1 (box_widths ! i)\<rparr> \<and>
      ?out ! (length (nf_bins s) + 1) ! i = 1 \<and>
      (\<forall>j' < length ?out. j' \<noteq> length (nf_bins s) + 1 \<longrightarrow> ?out ! j' ! i = 0)"
    if "box_widths ! i > nf_available_space s"
  proof -
    have after: "?after =
        \<lparr>nf_bins = nf_bins s @ [nf_current_bin s],
         nf_current_bin = (zeros (length box_widths))[i := 1],
         nf_available_space = sub 1 (box_widths ! i)\<rparr>"
      using that assms(2) by (simp add: next_fit_loop_Suc next_fit_step_opens)
    have "all_bins ?after ! (length (nf_bins s) + 1) ! i = 1"
      using assms(1) by (simp add: after all_bins_def zeros_def nth_append)
    moreover have "length (nf_bins s) + 1 < length (all_bins ?after)"
      by (simp add: after all_bins_def)
    ultimately show ?thesis
      using next_fit_item_in_bin [OF assms(1), of "length (nf_bins s) + 1" sub] after
      by simp
  qed
  have 2: "?after =
        \<lparr>nf_bins = nf_bins s,
         nf_current_bin = (nf_current_bin s)[i := 1],
         nf_available_space = sub (nf_available_space s) (box_widths ! i)\<rparr> \<and>
      ?out ! length (nf_bins s) ! i = 1 \<and>
      (\<forall>j' < length ?out. j' \<noteq> length (nf_bins s) \<longrightarrow> ?out ! j' ! i = 0)"
    if "box_widths ! i \<le> nf_available_space s"
  proof -
    have after: "?after =
        \<lparr>nf_bins = nf_bins s,
         nf_current_bin = (nf_current_bin s)[i := 1],
         nf_available_space = sub (nf_available_space s) (box_widths ! i)\<rparr>"
      using that assms(2) by (simp add: next_fit_loop_Suc next_fit_step_stays)
    have "all_bins ?after ! length (nf_bins s) ! i = 1"
      using assms(1) current by (simp add: after all_bins_def)
    moreover have "length (nf_bins s) < length (all_bins ?after)"
      by (simp add: after all_bins_def)
    ultimately show ?thesis
      using next_fit_item_in_bin [OF assms(1), of "length (nf_bins s)" sub] after
      by simp
  qed
  have 3: "length ?out =
      1 + length (filter
            (\<lambda>k. box_widths ! k > nf_available_space (next_fit_loop sub box_widths k))
            [0..<length box_widths])"
    by (simp only: next_fit_loop_end next_fit_loop_count)
  from 1 2 3 show ?thesis by blast
qed

text \<open>
  The sizes \<open>1/2, 1/2\<close>: the second item is as large as the space left, and stays in the
  first bin. The sizes \<open>1/2, 3/4\<close>: the second item is larger than the space left, and
  opens the second bin.
\<close>

theorem next_fit_opens_bin_witness:
  "next_fit_loop exact_sub [1 / 2, 1 / 2] (Suc 1) =
     \<lparr>nf_bins = [], nf_current_bin = [1, 1], nf_available_space = 0\<rparr> \<and>
   next_fit exact_sub [1 / 2, 1 / 2] ! 0 ! 1 = 1 \<and>
   length (next_fit exact_sub [1 / 2, 1 / 2]) = 1 \<and>
   next_fit_loop exact_sub [1 / 2, 3 / 4] (Suc 1) =
     \<lparr>nf_bins = [[1, 0]], nf_current_bin = [0, 1], nf_available_space = 1 / 4\<rparr> \<and>
   next_fit exact_sub [1 / 2, 3 / 4] ! 1 ! 1 = 1 \<and>
   next_fit exact_sub [1 / 2, 3 / 4] ! 0 ! 1 = 0 \<and>
   length (next_fit exact_sub [1 / 2, 3 / 4]) = 2"
proof -
  have tie: "next_fit_loop exact_sub [1 / 2, 1 / 2] 1 =
      \<lparr>nf_bins = [], nf_current_bin = [1, 0], nf_available_space = 1 / 2\<rparr>"
    by (simp add: eval_loops eval_packers exact_sub_def)
  have wide: "next_fit_loop exact_sub [1 / 2, 3 / 4] 1 =
      \<lparr>nf_bins = [], nf_current_bin = [1, 0], nf_available_space = 1 / 2\<rparr>"
    by (simp add: eval_loops eval_packers exact_sub_def)
  have lengths: "length (next_fit exact_sub [1 / 2, 1 / 2]) = 1"
    "length (next_fit exact_sub [1 / 2, 3 / 4]) = 2"
    by (simp_all add: eval_packers exact_sub_def)
  have second: "1 < length [1 / 2, 1 / 2 :: real]" "1 < length [1 / 2, 3 / 4 :: real]"
    by simp_all
  from next_fit_opens_bin [OF second(1) tie [symmetric]]
    next_fit_opens_bin [OF second(2) wide [symmetric]]
  show ?thesis
    by (simp add: lengths zeros_def exact_sub_def)
qed

section \<open>Feasibility in floating-point arithmetic\<close>

lemma rounding_items_next_fit:
  "next_fit binary64_sub rounding_items = [[1, 1, 1, 1, 1, 1, 1]]"
  by (simp add: rounding_items_def eval_packers eval_binary64)

lemma rounding_items_first_fit:
  "first_fit binary64_sub rounding_items = [[1, 1, 1, 1, 1, 1, 1]]"
  by (simp add: rounding_items_def eval_packers eval_binary64)

lemma rounding_items_binary64_sum:
  "is_valid_packing binary64_sum (map Number rounding_items) [[1, 1, 1, 1, 1, 1, 1]] =
     Inr False"
  by (simp add: rounding_items_def eval_validator eval_binary64)

lemma rounding_items_exact_sum:
  "is_valid_packing exact_sum (map Number rounding_items) [[1, 1, 1, 1, 1, 1, 1]] = Inr False"
  by (simp add: rounding_items_def eval_validator)

text \<open>
  Claim C1 says that for all sizes strictly between 0 and 1 the validator certifies
  the packing of each packer. In the notebook's floating-point arithmetic this fails
  for \<open>next_fit\<close> and \<open>first_fit\<close> on \<open>rounding_items\<close>. Each of the six small sizes
  leaves the available space at 1, since \<open>1 - 2 ^ -54\<close> rounds to 1, so all seven items
  are put in one bin. Their sum is \<open>1 + 2 ^ -52\<close>, a floating-point number which the
  left-to-right sum of \<open>np.sum\<close> reaches without rounding, and the validator returns
  false: with the rounded sum and with the exact one.
\<close>

theorem feasibility_fails_with_rounding:
  "list_all (\<lambda>w. 0 < w \<and> w < 1) rounding_items \<and>
   map binary64 rounding_items = rounding_items \<and>
   next_fit binary64_sub rounding_items = [[1, 1, 1, 1, 1, 1, 1]] \<and>
   first_fit binary64_sub rounding_items = [[1, 1, 1, 1, 1, 1, 1]] \<and>
   binary64_sum (masked (map Number rounding_items) [1, 1, 1, 1, 1, 1, 1]) =
     Number (1 + 1 / 2 ^ 52) \<and>
   exact_sum (masked (map Number rounding_items) [1, 1, 1, 1, 1, 1, 1]) =
     Number (1 + 1 / 2 ^ 52) \<and>
   is_valid_packing binary64_sum (map Number rounding_items)
     (next_fit binary64_sub rounding_items) = Inr False \<and>
   is_valid_packing binary64_sum (map Number rounding_items)
     (first_fit binary64_sub rounding_items) = Inr False \<and>
   is_valid_packing exact_sum (map Number rounding_items)
     (next_fit binary64_sub rounding_items) = Inr False \<and>
   is_valid_packing exact_sum (map Number rounding_items)
     (first_fit binary64_sub rounding_items) = Inr False"
proof -
  have "list_all (\<lambda>w. 0 < w \<and> w < 1) rounding_items"
    by (simp add: rounding_items_def)
  moreover have "map binary64 rounding_items = rounding_items"
    by (simp add: rounding_items_def eval_binary64)
  moreover have "binary64_sum (masked (map Number rounding_items) [1, 1, 1, 1, 1, 1, 1]) =
      Number (1 + 1 / 2 ^ 52)"
    by (simp add: rounding_items_def masked_def eval_binary64)
  moreover have "exact_sum (masked (map Number rounding_items) [1, 1, 1, 1, 1, 1, 1]) =
      Number (1 + 1 / 2 ^ 52)"
    by (simp add: rounding_items_def masked_def exact_sum_def sum_with_def)
  ultimately show ?thesis
    by (simp only: rounding_items_next_fit rounding_items_first_fit
        rounding_items_binary64_sum rounding_items_exact_sum simp_thms)
qed

end
